theory Spec2Isabelle
  imports Main "HOL-Library.Word"
begin

unbundle bit_operations_syntax

section \<open>SHA-1 length extension: the embedding\<close>

text \<open>
  The development embeds \<^verbatim>\<open>crypto/hash_vegas/sha1_extend.py\<close>. Python integers are
  unbounded and are modelled as \<^typ>\<open>int\<close>; the bitwise operators of Python on integers
  (two's complement of infinite width) are the bit operations of \<^typ>\<open>int\<close>. A \<^verbatim>\<open>bytes\<close>
  value is a list of 8-bit words. A \<^verbatim>\<open>str\<close> is a list of characters with code points
  below 256. Exceptions are values: a function that can raise returns \<open>error + 'a\<close>.
\<close>

type_synonym byte = "8 word"

datatype error = ValueError | StructError

subsection \<open>The library functions the module calls\<close>

text \<open>Big-endian encoding of the low \<open>n\<close> bytes of an integer, and decoding.\<close>

fun be_bytes :: "nat \<Rightarrow> int \<Rightarrow> byte list" where
  "be_bytes 0 v = []"
| "be_bytes (Suc n) v = be_bytes n (v div 256) @ [word_of_int (v mod 256)]"

definition be_int :: "byte list \<Rightarrow> int" where
  "be_int bs = foldl (\<lambda>acc b. acc * 256 + uint b) 0 bs"

text \<open>\<^verbatim>\<open>struct.pack('>Q', v)\<close>: eight bytes, \<^verbatim>\<open>struct.error\<close> outside \<open>[0, 2^64)\<close>.\<close>

definition struct_pack_Q :: "int \<Rightarrow> error + byte list" where
  "struct_pack_Q v = (if 0 \<le> v \<and> v < 2 ^ 64 then Inr (be_bytes 8 v) else Inl StructError)"

text \<open>\<^verbatim>\<open>struct.pack('>5I', h0, h1, h2, h3, h4)\<close>: twenty bytes, \<^verbatim>\<open>struct.error\<close> when
  an argument is outside \<open>[0, 2^32)\<close>.\<close>

definition struct_pack_5I :: "int \<Rightarrow> int \<Rightarrow> int \<Rightarrow> int \<Rightarrow> int \<Rightarrow> error + byte list" where
  "struct_pack_5I h0 h1 h2 h3 h4 =
     (if list_all (\<lambda>h. 0 \<le> h \<and> h < 2 ^ 32) [h0, h1, h2, h3, h4]
      then Inr (concat (map (be_bytes 4) [h0, h1, h2, h3, h4]))
      else Inl StructError)"

text \<open>\<^verbatim>\<open>struct.unpack('>16I', block)\<close>: sixteen big-endian words, \<^verbatim>\<open>struct.error\<close>
  unless the buffer has exactly 64 bytes.\<close>

definition struct_unpack_16I :: "byte list \<Rightarrow> error + int list" where
  "struct_unpack_16I block =
     (if length block = 64
      then Inr (map (\<lambda>j. be_int (take 4 (drop (4 * j) block))) [0..<16])
      else Inl StructError)"

text \<open>\<^verbatim>\<open>bytes.hex()\<close>: two lower-case hexadecimal digits for each byte.\<close>

definition hex_char :: "nat \<Rightarrow> char" where
  "hex_char n = (if n < 10 then char_of (48 + n) else char_of (87 + n))"

definition bytes_hex :: "byte list \<Rightarrow> string" where
  "bytes_hex bs = concat (map (\<lambda>b. [hex_char (unat b div 16), hex_char (unat b mod 16)]) bs)"

text \<open>
  \<^verbatim>\<open>int(s, 16)\<close> on a string, as CPython parses it: white space is skipped at both
  ends, then an optional sign, an optional prefix \<^verbatim>\<open>0x\<close> or \<^verbatim>\<open>0X\<close> (after which one
  underscore is allowed), then hexadecimal digits in either case where single
  underscores may separate digits; at least one digit is required and nothing else
  may follow. Anything else raises \<^verbatim>\<open>ValueError\<close>.
\<close>

definition py_isspace :: "char \<Rightarrow> bool" where
  "py_isspace c \<longleftrightarrow> (of_char c :: nat) \<in> {9, 10, 11, 12, 13, 32, 133, 160}"

definition digit_value :: "char \<Rightarrow> nat option" where
  "digit_value c =
     (let n = (of_char c :: nat) in
      if 48 \<le> n \<and> n \<le> 57 then Some (n - 48)
      else if 97 \<le> n \<and> n \<le> 102 then Some (n - 87)
      else if 65 \<le> n \<and> n \<le> 70 then Some (n - 55)
      else None)"

text \<open>The digit scan: the flag says that the previous character was an underscore; the
  result is the value read and the rest of the string, or nothing on a doubled or
  trailing underscore.\<close>

fun scan_digits :: "bool \<Rightarrow> int \<Rightarrow> string \<Rightarrow> (int \<times> string) option" where
  "scan_digits us acc [] = (if us then None else Some (acc, []))"
| "scan_digits us acc (c # cs) =
     (if c = CHR ''_'' then (if us then None else scan_digits True acc cs)
      else case digit_value c of
             Some d \<Rightarrow> scan_digits False (acc * 16 + int d) cs
           | None \<Rightarrow> (if us then None else Some (acc, c # cs)))"

definition strip_sign :: "string \<Rightarrow> bool \<times> string" where
  "strip_sign s =
     (case s of
        c # r \<Rightarrow> if c = CHR ''+'' then (False, r) else if c = CHR ''-'' then (True, r) else (False, s)
      | [] \<Rightarrow> (False, s))"

definition strip_prefix16 :: "string \<Rightarrow> string" where
  "strip_prefix16 s =
     (case s of
        z # x # r \<Rightarrow>
          if z = CHR ''0'' \<and> (x = CHR ''x'' \<or> x = CHR ''X'')
          then (case r of u # r' \<Rightarrow> if u = CHR ''_'' then r' else r | [] \<Rightarrow> r)
          else s
      | _ \<Rightarrow> s)"

definition py_int16 :: "string \<Rightarrow> error + int" where
  "py_int16 s =
     (let (neg, s2) = strip_sign (dropWhile py_isspace s);
          s3 = strip_prefix16 s2
      in if s3 \<noteq> [] \<and> hd s3 = CHR ''_'' then Inl ValueError
         else case scan_digits False 0 s3 of
                None \<Rightarrow> Inl ValueError
              | Some (v, rest) \<Rightarrow>
                  if length rest = length s3 then Inl ValueError
                  else if dropWhile py_isspace rest \<noteq> [] then Inl ValueError
                  else Inr (if neg then - v else v))"

subsection \<open>\<^verbatim>\<open>sha1_padding\<close>\<close>

definition sha1_padding :: "int \<Rightarrow> error + byte list" where
  "sha1_padding msg_len =
     (let ml_bits = msg_len * 8;
          padding = [0x80];
          padding = padding @ replicate (nat ((56 - (msg_len + 1) mod 64) mod 64)) 0x00
      in case struct_pack_Q ml_bits of
           Inl err \<Rightarrow> Inl err
         | Inr q \<Rightarrow> Inr (padding @ q))"

subsection \<open>\<^verbatim>\<open>_left_rotate\<close> and \<^verbatim>\<open>sha1_process_block\<close>\<close>

text \<open>The module calls \<^verbatim>\<open>_left_rotate\<close> with the shift counts 1, 5 and 30 only; the
  count is a natural number here, and \<open>32 - b\<close> is the difference Python computes
  for every count up to 32.\<close>

definition left_rotate :: "int \<Rightarrow> nat \<Rightarrow> int" where
  "left_rotate n b =
     (let n = n AND 0xffffffff
      in (push_bit b n OR drop_bit (32 - b) n) AND 0xffffffff)"

text \<open>One pass of the loop that fills the message schedule in place.\<close>

definition schedule_step :: "nat \<Rightarrow> int list \<Rightarrow> int list" where
  "schedule_step i w =
     w[i := left_rotate (w ! (i - 3) XOR w ! (i - 8) XOR w ! (i - 14) XOR w ! (i - 16)) 1]"

text \<open>One pass of the round loop on the working registers.\<close>

definition round_step :: "int list \<Rightarrow> nat \<Rightarrow> int \<times> int \<times> int \<times> int \<times> int
    \<Rightarrow> int \<times> int \<times> int \<times> int \<times> int" where
  "round_step w i = (\<lambda>(a, b, c, d, e).
     let (f, k) =
           (if i < 20 then ((b AND c) OR ((NOT b) AND d), 0x5A827999)
            else if i < 40 then (b XOR c XOR d, 0x6ED9EBA1)
            else if i < 60 then ((b AND c) OR (b AND d) OR (c AND d), 0x8F1BBCDC)
            else (b XOR c XOR d, 0xCA62C1D6));
         temp = (left_rotate a 5 + f + e + k + w ! i) AND 0xffffffff
     in (temp, a, left_rotate b 30, c, d))"

definition sha1_process_block :: "byte list \<Rightarrow> int \<Rightarrow> int \<Rightarrow> int \<Rightarrow> int \<Rightarrow> int
    \<Rightarrow> error + (int \<times> int \<times> int \<times> int \<times> int)" where
  "sha1_process_block block h0 h1 h2 h3 h4 =
     (case struct_unpack_16I block of
        Inl err \<Rightarrow> Inl err
      | Inr ws \<Rightarrow>
          let w = ws @ replicate 64 0;
              w = fold schedule_step [16..<80] w;
              (a, b, c, d, e) = fold (round_step w) [0..<80] (h0, h1, h2, h3, h4)
          in Inr ((h0 + a) AND 0xffffffff, (h1 + b) AND 0xffffffff, (h2 + c) AND 0xffffffff,
                  (h3 + d) AND 0xffffffff, (h4 + e) AND 0xffffffff))"

subsection \<open>\<^verbatim>\<open>sha1_extend_hash\<close>\<close>

text \<open>The loop over the 64-byte blocks of the padded data. It ends either because the
  range is exhausted or through the \<^verbatim>\<open>break\<close> on a block shorter than 64 bytes; the
  result records which.\<close>

datatype loop_exit = Exhausted | Broke

function extend_loop :: "byte list \<Rightarrow> nat \<Rightarrow> int \<times> int \<times> int \<times> int \<times> int
    \<Rightarrow> error + (loop_exit \<times> (int \<times> int \<times> int \<times> int \<times> int))" where
  "extend_loop padded_data i (h0, h1, h2, h3, h4) =
     (if i < length padded_data then
        let block = take 64 (drop i padded_data)
        in if length block < 64 then Inr (Broke, (h0, h1, h2, h3, h4))
           else case sha1_process_block block h0 h1 h2 h3 h4 of
                  Inl err \<Rightarrow> Inl err
                | Inr st \<Rightarrow> extend_loop padded_data (i + 64) st
      else Inr (Exhausted, (h0, h1, h2, h3, h4)))"
  by pat_completeness auto
termination
  by (relation "measure (\<lambda>(pd, i, st). length pd - i)") auto

declare extend_loop.simps [simp del]

definition sha1_extend_hash :: "int list \<Rightarrow> byte list \<Rightarrow> int \<Rightarrow> error + byte list" where
  "sha1_extend_hash initial_state data previous_length =
     (case initial_state of
        [h0, h1, h2, h3, h4] \<Rightarrow>
          let total_length = previous_length + int (length data)
          in (case sha1_padding total_length of
                Inl err \<Rightarrow> Inl err
              | Inr p \<Rightarrow>
                  let padded_data = data @ p
                  in (case extend_loop padded_data 0 (h0, h1, h2, h3, h4) of
                        Inl err \<Rightarrow> Inl err
                      | Inr (ex, (h0, h1, h2, h3, h4)) \<Rightarrow> struct_pack_5I h0 h1 h2 h3 h4))
      | _ \<Rightarrow> Inl ValueError)"

subsection \<open>\<^verbatim>\<open>sha1_extend\<close>\<close>

text \<open>The comprehension \<^verbatim>\<open>[int(original_hash_hex[i:i + 8], 16) for i in range(0, 40, 8)]\<close>:
  the five slices are parsed in order and the first failure is raised.\<close>

fun collect :: "(error + 'a) list \<Rightarrow> error + 'a list" where
  "collect [] = Inr []"
| "collect (r # rs) =
     (case r of
        Inl err \<Rightarrow> Inl err
      | Inr x \<Rightarrow> (case collect rs of Inl err \<Rightarrow> Inl err | Inr xs \<Rightarrow> Inr (x # xs)))"

definition parse_state :: "string \<Rightarrow> error + int list" where
  "parse_state original_hash_hex =
     collect (map (\<lambda>i. py_int16 (take 8 (drop i original_hash_hex))) [0, 8, 16, 24, 32])"

definition sha1_extend :: "string \<Rightarrow> byte list \<Rightarrow> byte list \<Rightarrow> int
    \<Rightarrow> error + (string \<times> byte list)" where
  "sha1_extend original_hash_hex original_data append_data secret_length =
     (case parse_state original_hash_hex of
        Inl err \<Rightarrow> Inl err
      | Inr h \<Rightarrow>
          let original_msg_len = secret_length + int (length original_data)
          in (case sha1_padding original_msg_len of
                Inl err \<Rightarrow> Inl err
              | Inr padding \<Rightarrow>
                  let new_data = original_data @ padding @ append_data
                  in (case sha1_extend_hash h append_data
                             (original_msg_len + int (length padding)) of
                        Inl err \<Rightarrow> Inl err
                      | Inr new_hash \<Rightarrow> Inr (bytes_hex new_hash, new_data))))"

subsection \<open>Reference definitions\<close>

text \<open>The blocks a byte string splits into, 64 bytes at a time, and the fold of
  \<^verbatim>\<open>sha1_process_block\<close> over a list of blocks.\<close>

function blocks64 :: "byte list \<Rightarrow> byte list list" where
  "blocks64 xs = (if xs = [] then [] else take 64 xs # blocks64 (drop 64 xs))"
  by pat_completeness auto
termination
  by (relation "measure length") auto

declare blocks64.simps [simp del]

fun fold_compress :: "byte list list \<Rightarrow> int \<times> int \<times> int \<times> int \<times> int
    \<Rightarrow> error + (int \<times> int \<times> int \<times> int \<times> int)" where
  "fold_compress [] st = Inr st"
| "fold_compress (block # bs) (h0, h1, h2, h3, h4) =
     (case sha1_process_block block h0 h1 h2 h3 h4 of
        Inl err \<Rightarrow> Inl err
      | Inr st \<Rightarrow> fold_compress bs st)"

text \<open>Modelled from the spec: the digest engine (section 4.3), which the module takes
  from \<^verbatim>\<open>hashlib\<close>. It pads the message with \<^verbatim>\<open>pad(len(message))\<close>, folds the
  compression function over the consecutive 64-byte blocks of message and padding from
  the fixed standard initial chaining state, and serialises the final state.\<close>

definition sha1_iv :: "int \<times> int \<times> int \<times> int \<times> int" where
  "sha1_iv = (0x67452301, 0xEFCDAB89, 0x98BADCFE, 0x10325476, 0xC3D2E1F0)"

definition digest :: "byte list \<Rightarrow> error + byte list" where
  "digest message =
     (case sha1_padding (int (length message)) of
        Inl err \<Rightarrow> Inl err
      | Inr padding \<Rightarrow>
          (case fold_compress (blocks64 (message @ padding)) sha1_iv of
             Inl err \<Rightarrow> Inl err
           | Inr (h0, h1, h2, h3, h4) \<Rightarrow> struct_pack_5I h0 h1 h2 h3 h4))"

text \<open>The compression function of SHA-1 as the specification words it, on 32-bit words:
  the schedule is the recurrence over the sixteen big-endian words of the block, a
  round mixes the five registers with the function and the constant of its range, and
  the registers are added to the input state.\<close>

type_synonym u32 = "32 word"

function schedule_spec :: "u32 list \<Rightarrow> nat \<Rightarrow> u32" where
  "schedule_spec m i =
     (if i < 16 then m ! i
      else word_rotl 1 (schedule_spec m (i - 3) XOR schedule_spec m (i - 8)
                         XOR schedule_spec m (i - 14) XOR schedule_spec m (i - 16)))"
  by pat_completeness auto
termination
  by (relation "measure snd") auto

declare schedule_spec.simps [simp del]

definition f_spec :: "nat \<Rightarrow> u32 \<Rightarrow> u32 \<Rightarrow> u32 \<Rightarrow> u32" where
  "f_spec i b c d =
     (if i < 20 then (b AND c) OR (NOT b AND d)
      else if i < 40 then b XOR c XOR d
      else if i < 60 then (b AND c) OR (b AND d) OR (c AND d)
      else b XOR c XOR d)"

definition k_spec :: "nat \<Rightarrow> u32" where
  "k_spec i =
     (if i < 20 then 0x5A827999 else if i < 40 then 0x6ED9EBA1
      else if i < 60 then 0x8F1BBCDC else 0xCA62C1D6)"

definition round_spec :: "u32 list \<Rightarrow> nat \<Rightarrow> u32 \<times> u32 \<times> u32 \<times> u32 \<times> u32
    \<Rightarrow> u32 \<times> u32 \<times> u32 \<times> u32 \<times> u32" where
  "round_spec m i = (\<lambda>(a, b, c, d, e).
     (word_rotl 5 a + f_spec i b c d + e + k_spec i + schedule_spec m i,
      a, word_rotl 30 b, c, d))"

definition block_words :: "byte list \<Rightarrow> u32 list" where
  "block_words block = map (\<lambda>j. word_rcat (take 4 (drop (4 * j) block))) [0..<16]"

definition compress_spec :: "u32 \<times> u32 \<times> u32 \<times> u32 \<times> u32 \<Rightarrow> byte list
    \<Rightarrow> u32 \<times> u32 \<times> u32 \<times> u32 \<times> u32" where
  "compress_spec = (\<lambda>(h0, h1, h2, h3, h4) block.
     let (a, b, c, d, e) = fold (round_spec (block_words block)) [0..<80] (h0, h1, h2, h3, h4)
     in (h0 + a, h1 + b, h2 + c, h3 + d, h4 + e))"

text \<open>The value of a string of hexadecimal digits, and the bytes such a string stands
  for, two digits a byte (\<^verbatim>\<open>bytes.fromhex\<close>, the inverse of \<^verbatim>\<open>hex\<close>).\<close>

definition is_hex :: "char \<Rightarrow> bool" where
  "is_hex c \<longleftrightarrow> digit_value c \<noteq> None"

definition hex_value :: "string \<Rightarrow> int" where
  "hex_value s = foldl (\<lambda>acc c. acc * 16 + int (the (digit_value c))) 0 s"

fun unhex :: "string \<Rightarrow> byte list" where
  "unhex (c1 # c2 # cs) =
     word_of_nat (16 * the (digit_value c1) + the (digit_value c2)) # unhex cs"
| "unhex _ = []"


text \<open>A chaining state read as 32-bit words and back, and the states whose five
  integers are below \<open>2^32\<close>.\<close>

definition state_words :: "int \<times> int \<times> int \<times> int \<times> int \<Rightarrow> u32 \<times> u32 \<times> u32 \<times> u32 \<times> u32" where
  "state_words = (\<lambda>(a, b, c, d, e).
     (word_of_int a, word_of_int b, word_of_int c, word_of_int d, word_of_int e))"

definition state_ints :: "u32 \<times> u32 \<times> u32 \<times> u32 \<times> u32 \<Rightarrow> int \<times> int \<times> int \<times> int \<times> int" where
  "state_ints = (\<lambda>(a, b, c, d, e). (uint a, uint b, uint c, uint d, uint e))"

definition in_range32 :: "int \<Rightarrow> bool" where
  "in_range32 x \<longleftrightarrow> 0 \<le> x \<and> x < 2 ^ 32"

definition state_ok :: "int \<times> int \<times> int \<times> int \<times> int \<Rightarrow> bool" where
  "state_ok = (\<lambda>(a, b, c, d, e).
     in_range32 a \<and> in_range32 b \<and> in_range32 c \<and> in_range32 d \<and> in_range32 e)"

text \<open>The full blocks of a byte string: its 64-byte blocks without a shorter last one.\<close>

definition full_blocks :: "byte list \<Rightarrow> byte list list" where
  "full_blocks xs = filter (\<lambda>b. length b = 64) (blocks64 xs)"

section \<open>Properties\<close>

subsection \<open>Arithmetic of the padding length\<close>

lemma pad_zero_sum:
  fixes L :: int
  shows "(L + 1 + (56 - (L + 1) mod 64) mod 64) mod 64 = 56"
proof -
  have "(L + 1 + (56 - (L + 1) mod 64) mod 64) mod 64 = (L + 1 + (56 - (L + 1) mod 64)) mod 64"
    by (rule mod_add_right_eq)
  also have "L + 1 + (56 - (L + 1) mod 64) = 56 + 64 * ((L + 1) div 64)"
    using mult_div_mod_eq [of 64 "L + 1"] by linarith
  also have "(56 + 64 * ((L + 1) div 64)) mod 64 = 56"
    by simp
  finally show ?thesis .
qed

lemma pad_zero_least:
  fixes L j :: int
  assumes "0 \<le> j" "j < (56 - (L + 1) mod 64) mod 64"
  shows "(L + 1 + j) mod 64 \<noteq> 56"
proof -
  define m where "m = (L + 1) mod 64"
  have m: "0 \<le> m" "m < 64" by (simp_all add: m_def)
  have eq: "(L + 1 + j) mod 64 = (m + j) mod 64"
    unfolding m_def by (simp add: mod_add_left_eq)
  show ?thesis
  proof (cases "m \<le> 56")
    case True
    then have "(56 - m) mod 64 = 56 - m" using m by simp
    then have "m + j < 56" using assms(2) by (simp add: m_def)
    then have "(m + j) mod 64 = m + j" using m assms(1) by simp
    then show ?thesis using eq \<open>m + j < 56\<close> by simp
  next
    case False
    have "(56 - m) mod 64 = (56 - m + 64) mod 64" by (simp only: mod_add_self2)
    also have "\<dots> = 120 - m" using m False by (simp add: algebra_simps)
    finally have "m + j < 120" using assms(2) by (simp add: m_def)
    have "56 < m + j" using False assms(1) by simp
    have "(m + j) mod 64 = (if m + j < 64 then m + j else m + j - 64)"
    proof (cases "m + j < 64")
      case True
      then show ?thesis using \<open>56 < m + j\<close> by simp
    next
      case False
      have "(m + j - 64 + 64) mod 64 = (m + j - 64) mod 64" by (simp only: mod_add_self2)
      then have "(m + j) mod 64 = (m + j - 64) mod 64" by simp
      also have "\<dots> = m + j - 64"
        by (rule mod_pos_pos_trivial) (use False \<open>m + j < 120\<close> in linarith)+
      finally show ?thesis using False by simp
    qed
    then show ?thesis using eq \<open>56 < m + j\<close> \<open>m + j < 120\<close> by (simp split: if_splits)
  qed
qed


subsection \<open>Big-endian encoding\<close>

lemma length_be_bytes [simp]: "length (be_bytes n v) = n"
  by (induction n arbitrary: v) simp_all

lemma be_int_snoc: "be_int (bs @ [b]) = be_int bs * 256 + uint b"
  by (simp add: be_int_def)

lemma uint_byte_of_mod: "uint (word_of_int (v mod 256) :: byte) = v mod 256"
  by (simp add: uint_word_of_int)

lemma be_int_be_bytes: "be_int (be_bytes n v) = v mod 256 ^ n"
proof (induction n arbitrary: v)
  case 0
  show ?case by (simp add: be_int_def)
next
  case (Suc n)
  have "be_int (be_bytes (Suc n) v) = (v div 256 mod 256 ^ n) * 256 + v mod 256"
    by (simp add: be_int_snoc Suc.IH uint_byte_of_mod)
  also have "\<dots> = v mod 256 ^ Suc n"
    using zmod_zmult2_eq [of "256 ^ n" v 256] by simp
  finally show ?case .
qed

subsection \<open>The padding\<close>

text \<open>
  Claim C3. For a byte length \<open>L \<ge> 0\<close> whose bit length fits 64 bits, \<^verbatim>\<open>sha1_padding\<close>
  returns the byte 0x80, then \<open>k\<close> zero bytes, then the 8-byte big-endian encoding of
  \<open>L * 8\<close>, where \<open>k\<close> is the least natural number with \<open>L + 1 + k\<close> congruent to 56
  modulo 64. The padding has between 9 and 72 bytes, brings the length to a multiple
  of 64, and its last 8 bytes decode to \<open>L * 8\<close>.
\<close>

theorem sha1_padding_contract:
  assumes "0 \<le> L" and "L * 8 < 2 ^ 64"
  shows "\<exists>k p. sha1_padding L = Inr p
           \<and> p = [0x80] @ replicate k 0x00 @ be_bytes 8 (L * 8)
           \<and> (L + 1 + int k) mod 64 = 56
           \<and> (\<forall>j<k. (L + 1 + int j) mod 64 \<noteq> 56)
           \<and> 9 \<le> length p \<and> length p \<le> 72
           \<and> (L + int (length p)) mod 64 = 0
           \<and> be_int (drop (length p - 8) p) = L * 8"
proof -
  define z where "z = (56 - (L + 1) mod 64) mod 64"
  define k where "k = nat z"
  define p where "p = [0x80] @ replicate k (0x00 :: byte) @ be_bytes 8 (L * 8)"
  have z: "0 \<le> z" "z < 64" by (simp_all add: z_def)
  have zsum: "(L + 1 + z) mod 64 = 56" unfolding z_def by (rule pad_zero_sum)
  have ik: "int k = z" using z by (simp add: k_def)
  have pad: "sha1_padding L = Inr p"
    using assms by (simp add: sha1_padding_def struct_pack_Q_def Let_def p_def k_def z_def)
  have len: "length p = 9 + k" by (simp add: p_def)
  have least: "\<forall>j<k. (L + 1 + int j) mod 64 \<noteq> 56"
  proof (intro allI impI)
    fix j assume "j < k"
    then have "int j < (56 - (L + 1) mod 64) mod 64" using ik by (simp add: z_def)
    then show "(L + 1 + int j) mod 64 \<noteq> 56" by (intro pad_zero_least) simp_all
  qed
  have k64: "k < 64" using z ik by linarith
  have "(L + int (length p)) mod 64 = (L + 1 + z + 8) mod 64"
    by (simp add: len ik algebra_simps)
  also have "\<dots> = ((L + 1 + z) mod 64 + 8) mod 64"
    by (simp only: mod_add_left_eq)
  also have "\<dots> = 0" by (simp add: zsum)
  finally have al: "(L + int (length p)) mod 64 = 0" .
  have "drop (length p - 8) p = be_bytes 8 (L * 8)" by (simp add: p_def)
  then have dec: "be_int (drop (length p - 8) p) = L * 8"
    using assms by (simp add: be_int_be_bytes)
  show ?thesis
  proof (rule exI [of _ k], rule exI [of _ p], intro conjI)
    show "sha1_padding L = Inr p" by (rule pad)
    show "p = [0x80] @ replicate k 0x00 @ be_bytes 8 (L * 8)" by (rule p_def)
    show "(L + 1 + int k) mod 64 = 56" using zsum by (simp only: ik)
    show "\<forall>j<k. (L + 1 + int j) mod 64 \<noteq> 56" by (rule least)
    show "9 \<le> length p" by (simp add: len)
    show "length p \<le> 72" using k64 by (simp add: len)
    show "(L + int (length p)) mod 64 = 0" by (rule al)
    show "be_int (drop (length p - 8) p) = L * 8" by (rule dec)
  qed
qed

theorem sha1_padding_contract_witness:
  "(0::int) \<le> 11 \<and> (11::int) * 8 < 2 ^ 64 \<and>
   (\<exists>k p. sha1_padding 11 = Inr p
           \<and> p = [0x80] @ replicate k 0x00 @ be_bytes 8 (11 * 8)
           \<and> (11 + 1 + int k) mod 64 = 56
           \<and> (\<forall>j<k. (11 + 1 + int j) mod 64 \<noteq> 56)
           \<and> 9 \<le> length p \<and> length p \<le> 72
           \<and> (11 + int (length p)) mod 64 = 0
           \<and> be_int (drop (length p - 8) p) = 11 * 8)"
proof -
  have h1: "(0::int) \<le> 11" by simp
  have h2: "(11::int) * 8 < 2 ^ 64" by simp
  show ?thesis by (rule conjI [OF h1 conjI [OF h2 sha1_padding_contract [OF h1 h2]]])
qed

subsection \<open>The block length\<close>

lemma sha1_process_block_returns:
  assumes "length block = 64"
  shows "\<exists>r. sha1_process_block block h0 h1 h2 h3 h4 = Inr r"
proof -
  obtain ws where ws: "struct_unpack_16I block = Inr ws"
    using assms by (simp add: struct_unpack_16I_def del: upt_rec_numeral)
  show ?thesis
    unfolding sha1_process_block_def ws
    by (simp only: sum.case Let_def case_prod_beta) blast
qed

text \<open>
  Claim C7. \<^verbatim>\<open>sha1_process_block\<close> raises \<^verbatim>\<open>struct.error\<close> on every block whose length
  is not 64 bytes, so such a block is neither padded nor truncated, and it returns a
  state on every block of exactly 64 bytes.
\<close>

theorem sha1_process_block_length:
  "(length block \<noteq> 64 \<longrightarrow> sha1_process_block block h0 h1 h2 h3 h4 = Inl StructError)
   \<and> (length block = 64 \<longrightarrow> (\<exists>r. sha1_process_block block h0 h1 h2 h3 h4 = Inr r))"
proof (intro conjI impI)
  assume "length block \<noteq> 64"
  then show "sha1_process_block block h0 h1 h2 h3 h4 = Inl StructError"
    by (simp add: sha1_process_block_def struct_unpack_16I_def)
next
  assume "length block = 64"
  then show "\<exists>r. sha1_process_block block h0 h1 h2 h3 h4 = Inr r"
    by (rule sha1_process_block_returns)
qed

theorem sha1_process_block_length_witness:
  "length (replicate 63 (0::byte)) \<noteq> 64
   \<and> sha1_process_block (replicate 63 0) 0 0 0 0 0 = Inl StructError
   \<and> length (replicate 64 (0::byte)) = 64
   \<and> (\<exists>r. sha1_process_block (replicate 64 0) 0 0 0 0 0 = Inr r)"
proof -
  have a: "length (replicate 63 (0::byte)) \<noteq> 64" by simp
  have b: "length (replicate 64 (0::byte)) = 64" by (simp only: length_replicate)
  from sha1_process_block_length [of "replicate 63 0" 0 0 0 0 0] a
  have c: "sha1_process_block (replicate 63 0) 0 0 0 0 0 = Inl StructError" by blast
  from sha1_process_block_length [of "replicate 64 0" 0 0 0 0 0] b
  have d: "\<exists>r. sha1_process_block (replicate 64 0) 0 0 0 0 0 = Inr r" by blast
  show ?thesis by (intro conjI a b c d)
qed

subsection \<open>Python integers and 32-bit words\<close>

lemma mask32: "(x::int) AND 0xffffffff = take_bit 32 x"
proof -
  have "(0xffffffff::int) = mask 32" by (simp add: mask_eq_exp_minus_1)
  then show ?thesis by (simp only: take_bit_eq_mask)
qed

lemma take_bit32_word: "take_bit 32 (w :: u32) = w"
  by (rule take_bit_word_eq_self) simp

lemma word_of_int_mask32: "(word_of_int (x AND 0xffffffff) :: u32) = word_of_int x"
  unfolding mask32 by (simp only: of_int_take_bit take_bit32_word)

lemma uint_word_of_int32: "uint (word_of_int x :: u32) = x AND 0xffffffff"
  unfolding mask32 by (simp add: uint_word_of_int_eq)

lemma word_rotl_shift:
  fixes w :: u32
  assumes "b < 32"
  shows "word_rotl b w = push_bit b w OR drop_bit (32 - b) w"
proof (rule bit_word_eqI)
  fix i assume "i < LENGTH(32)"
  then have i: "i < 32" by simp
  have rot: "bit (word_rotl b w) i \<longleftrightarrow> bit w ((i + (32 - b)) mod 32)"
    using i assms by (simp add: bit_word_rotl_iff)
  have or: "bit (push_bit b w OR drop_bit (32 - b) w) i
      \<longleftrightarrow> (b \<le> i \<and> bit w (i - b)) \<or> bit w ((32 - b) + i)"
    using i by (simp add: bit_or_iff bit_push_bit_iff bit_drop_bit_eq)
  show "bit (word_rotl b w) i \<longleftrightarrow> bit (push_bit b w OR drop_bit (32 - b) w) i"
  proof (cases "b \<le> i")
    case True
    have "i + (32 - b) = (i - b) + 32" using True assms by simp
    then have "(i + (32 - b)) mod 32 = (i - b) mod 32" by (simp only: mod_add_self2)
    also have "\<dots> = i - b" using i by simp
    finally have idx: "(i + (32 - b)) mod 32 = i - b" .
    have "32 \<le> (32 - b) + i" using True assms by simp
    then have "\<not> bit w ((32 - b) + i)"
      using bit_imp_le_length [of w "(32 - b) + i"] by auto
    then show ?thesis unfolding rot or idx using True by simp
  next
    case False
    then have "i + (32 - b) < 32" using assms by simp
    then have idx: "(i + (32 - b)) mod 32 = (32 - b) + i" by simp
    show ?thesis unfolding rot or idx using False by simp
  qed
qed

lemma word_of_int_left_rotate:
  assumes "b < 32"
  shows "(word_of_int (left_rotate n b) :: u32) = word_rotl b (word_of_int n)"
proof -
  have d: "(word_of_int (drop_bit (32 - b) (take_bit 32 n)) :: u32) = drop_bit (32 - b) (word_of_int n)"
    by (rule bit_word_eqI) (auto simp add: bit_simps)
  have "(word_of_int (left_rotate n b) :: u32)
      = word_of_int (push_bit b (take_bit 32 n) OR drop_bit (32 - b) (take_bit 32 n))"
    unfolding left_rotate_def Let_def mask32 by (simp only: of_int_take_bit take_bit32_word)
  also have "\<dots> = push_bit b (word_of_int (take_bit 32 n)) OR drop_bit (32 - b) (word_of_int n)"
    by (simp only: of_int_or_eq of_int_push_bit d)
  also have "\<dots> = push_bit b (word_of_int n) OR drop_bit (32 - b) (word_of_int n)"
    by (simp only: of_int_take_bit take_bit32_word)
  finally show ?thesis by (simp only: word_rotl_shift [OF assms])
qed

subsection \<open>The message schedule\<close>

lemma length_schedule_step [simp]: "length (schedule_step i w) = length w"
  by (simp add: schedule_step_def)

lemma schedule_fold_invariant:
  assumes "length ws = 16"
  shows "length (fold schedule_step [16..<16 + k] (ws @ replicate 64 0)) = 80
    \<and> (16 + k \<le> 80 \<longrightarrow> (\<forall>t<16 + k.
         (word_of_int (fold schedule_step [16..<16 + k] (ws @ replicate 64 0) ! t) :: u32)
           = schedule_spec (map word_of_int ws) t))"
proof (induction k)
  case 0
  have "\<forall>t<16. (word_of_int ((ws @ replicate 64 0) ! t) :: u32) = schedule_spec (map word_of_int ws) t"
    using assms by (simp add: nth_append schedule_spec.simps)
  then show ?case using assms by simp
next
  case (Suc k)
  define w where "w = fold schedule_step [16..<16 + k] (ws @ replicate 64 0)"
  define n where "n = 16 + k"
  define m :: "u32 list" where "m = map word_of_int ws"
  have len: "length w = 80" using Suc.IH by (simp add: w_def)
  have "16 + Suc k = Suc n" by (simp add: n_def)
  moreover have "[16..<Suc n] = [16..<n] @ [n]" by (rule upt_Suc_append) (simp add: n_def)
  ultimately have upt: "[16..<16 + Suc k] = [16..<n] @ [n]" by (simp only:)
  have fold: "fold schedule_step [16..<16 + Suc k] (ws @ replicate 64 0) = schedule_step n w"
    unfolding upt by (simp add: w_def n_def)
  have "\<forall>t<Suc n. (word_of_int (schedule_step n w ! t) :: u32) = schedule_spec m t" if n80: "Suc n \<le> 80"
  proof (intro allI impI)
    fix t assume t: "t < Suc n"
    have IH: "\<And>u. u < n \<Longrightarrow> (word_of_int (w ! u) :: u32) = schedule_spec m u"
      using Suc.IH n80 by (simp add: w_def n_def m_def)
    show "(word_of_int (schedule_step n w ! t) :: u32) = schedule_spec m t"
    proof (cases "t = n")
      case False
      then have "t < n" using t by simp
      then show ?thesis using False IH len by (simp add: schedule_step_def)
    next
      case True
      have n16: "16 \<le> n" by (simp add: n_def)
      have "schedule_step n w ! n
          = left_rotate (w ! (n - 3) XOR w ! (n - 8) XOR w ! (n - 14) XOR w ! (n - 16)) 1"
        using len n80 by (simp add: schedule_step_def)
      then have "(word_of_int (schedule_step n w ! n) :: u32)
          = word_rotl 1 (schedule_spec m (n - 3) XOR schedule_spec m (n - 8)
              XOR schedule_spec m (n - 14) XOR schedule_spec m (n - 16))"
        using n16 by (simp add: word_of_int_left_rotate of_int_xor_eq IH)
      also have "\<dots> = schedule_spec m n"
        using n16 by (subst (5) schedule_spec.simps) simp
      finally show ?thesis using True by simp
    qed
  qed
  then show ?case unfolding fold using len by (simp add: n_def m_def)
qed

lemma schedule_refines:
  assumes "length ws = 16" and "t < 80"
  shows "(word_of_int (fold schedule_step [16..<80] (ws @ replicate 64 0) ! t) :: u32)
           = schedule_spec (map word_of_int ws) t"
  using schedule_fold_invariant [OF assms(1), of 64] assms(2) by simp

subsection \<open>The rounds\<close>

lemma word_and_mask32: "(x :: u32) AND 0xffffffff = x"
proof -
  have "(0xffffffff :: u32) = - 1" by simp
  then show ?thesis by (simp only: and.right_neutral)
qed

lemma round_step_refines:
  assumes "(word_of_int (w ! i) :: u32) = schedule_spec m i"
  shows "state_words (round_step w i st) = round_spec m i (state_words st)"
proof -
  obtain a b c d e where st: "st = (a, b, c, d, e)" by (cases st) blast
  show ?thesis
    unfolding st round_step_def round_spec_def state_words_def f_spec_def k_spec_def
    using assms
    by (simp add: Let_def word_and_mask32 word_of_int_left_rotate
        of_int_and_eq of_int_or_eq of_int_xor_eq of_int_not_eq)
qed

lemma rounds_refine:
  assumes "\<forall>t<80. (word_of_int (w ! t) :: u32) = schedule_spec m t" and "n \<le> 80"
  shows "state_words (fold (round_step w) [0..<n] st) = fold (round_spec m) [0..<n] (state_words st)"
  using assms(2)
proof (induction n)
  case 0
  show ?case by simp
next
  case (Suc n)
  then have "n < 80" by simp
  then have "(word_of_int (w ! n) :: u32) = schedule_spec m n" using assms(1) by blast
  then show ?case using Suc by (simp add: round_step_refines)
qed

lemma be_int_horner: "be_int bs = horner_sum uint 256 (rev bs)"
  by (induction bs rule: rev_induct) (simp_all add: be_int_def)

lemma word_of_int_be_int: "(word_of_int (be_int bs) :: u32) = word_rcat bs"
  by (simp add: word_rcat_def be_int_horner)

lemma unpack_block_words:
  assumes "struct_unpack_16I block = Inr ws"
  shows "length ws = 16" and "map word_of_int ws = block_words block"
proof -
  have ws: "ws = map (\<lambda>j. be_int (take 4 (drop (4 * j) block))) [0..<16]"
    using assms by (simp add: struct_unpack_16I_def del: upt_rec_numeral split: if_splits)
  show "length ws = 16" unfolding ws by (simp del: upt_rec_numeral)
  show "map word_of_int ws = block_words block"
    unfolding ws block_words_def by (simp add: word_of_int_be_int del: upt_rec_numeral)
qed

subsection \<open>The compression function\<close>

lemma uint_word_add32: "uint ((word_of_int h :: u32) + word_of_int a) = (h + a) AND 0xffffffff"
  by (simp only: of_int_add [symmetric] uint_word_of_int32)

lemma sha1_process_block_refines:
  assumes "length block = 64"
  shows "sha1_process_block block h0 h1 h2 h3 h4
    = Inr (state_ints (compress_spec (state_words (h0, h1, h2, h3, h4)) block))"
proof -
  obtain ws where ws: "struct_unpack_16I block = Inr ws"
    using assms by (simp add: struct_unpack_16I_def del: upt_rec_numeral)
  define w where "w = fold schedule_step [16..<80] (ws @ replicate 64 0)"
  obtain a b c d e where abc: "fold (round_step w) [0..<80] (h0, h1, h2, h3, h4) = (a, b, c, d, e)"
    by (cases "fold (round_step w) [0..<80] (h0, h1, h2, h3, h4)") blast
  have lhs: "sha1_process_block block h0 h1 h2 h3 h4
      = Inr ((h0 + a) AND 0xffffffff, (h1 + b) AND 0xffffffff, (h2 + c) AND 0xffffffff,
             (h3 + d) AND 0xffffffff, (h4 + e) AND 0xffffffff)"
    unfolding sha1_process_block_def ws
    by (simp only: sum.case Let_def w_def [symmetric] abc prod.case)
  have sched: "\<forall>t<80. (word_of_int (w ! t) :: u32) = schedule_spec (block_words block) t"
    using schedule_refines [OF unpack_block_words(1) [OF ws]]
    by (simp only: w_def unpack_block_words(2) [OF ws]) blast
  have "fold (round_spec (block_words block)) [0..<80] (state_words (h0, h1, h2, h3, h4))
      = state_words (a, b, c, d, e)"
    using rounds_refine [OF sched, of 80 "(h0, h1, h2, h3, h4)"] by (simp only: abc)
  then have rhs: "compress_spec (state_words (h0, h1, h2, h3, h4)) block
      = (word_of_int h0 + word_of_int a, word_of_int h1 + word_of_int b,
         word_of_int h2 + word_of_int c, word_of_int h3 + word_of_int d,
         word_of_int h4 + word_of_int e)"
    unfolding compress_spec_def
    by (simp only: state_words_def prod.case Let_def)
  show ?thesis
    unfolding lhs rhs by (simp only: state_ints_def prod.case uint_word_add32)
qed

text \<open>
  Claim C2. On every chaining state of five 32-bit words and every block of 64 bytes,
  \<^verbatim>\<open>sha1_process_block\<close> is the compression function of SHA-1: the schedule recurrence
  over the sixteen big-endian words of the block, eighty rounds with the function and
  constant of each range of twenty, and the final addition modulo \<open>2^32\<close>.
\<close>

theorem sha1_process_block_standard:
  assumes "length block = 64"
  shows "sha1_process_block block (uint h0) (uint h1) (uint h2) (uint h3) (uint h4)
    = Inr (state_ints (compress_spec (h0, h1, h2, h3, h4) block))"
proof -
  have "state_words (uint h0, uint h1, uint h2, uint h3, uint h4) = (h0, h1, h2, h3, h4)"
    by (simp add: state_words_def)
  then show ?thesis
    using sha1_process_block_refines [OF assms, of "uint h0" "uint h1" "uint h2" "uint h3" "uint h4"]
    by (simp only:)
qed

theorem sha1_process_block_standard_witness:
  "length (replicate 64 (0 :: byte)) = 64
   \<and> sha1_process_block (replicate 64 0) (uint (1 :: u32)) (uint (2 :: u32)) (uint (3 :: u32))
        (uint (4 :: u32)) (uint (5 :: u32))
     = Inr (state_ints (compress_spec (1, 2, 3, 4, 5) (replicate 64 0)))"
proof -
  have len: "length (replicate 64 (0 :: byte)) = 64" by (simp only: length_replicate)
  show ?thesis by (rule conjI [OF len sha1_process_block_standard [OF len]])
qed

subsection \<open>Parsing hexadecimal digits\<close>

lemma is_hex_code:
  "is_hex c \<longleftrightarrow> (48 \<le> (of_char c :: nat) \<and> (of_char c :: nat) \<le> 57)
     \<or> (97 \<le> (of_char c :: nat) \<and> (of_char c :: nat) \<le> 102)
     \<or> (65 \<le> (of_char c :: nat) \<and> (of_char c :: nat) \<le> 70)"
  by (auto simp add: is_hex_def digit_value_def Let_def)

lemma is_hex_not_special:
  assumes "is_hex c"
  shows "\<not> py_isspace c" "c \<noteq> CHR ''_''" "c \<noteq> CHR ''+''" "c \<noteq> CHR ''-''"
    "c \<noteq> CHR ''x''" "c \<noteq> CHR ''X''"
  using assms by (auto simp add: is_hex_code py_isspace_def)

lemma digit_value_bound:
  assumes "is_hex c"
  shows "\<exists>d. digit_value c = Some d \<and> d < 16"
  using assms unfolding is_hex_code digit_value_def Let_def by auto

lemma scan_digits_hex:
  assumes "\<forall>c\<in>set s. is_hex c"
  shows "scan_digits False acc s
    = Some (foldl (\<lambda>acc c. acc * 16 + int (the (digit_value c))) acc s, [])"
  using assms
proof (induction s arbitrary: acc)
  case Nil
  show ?case by simp
next
  case (Cons c cs)
  then have c: "is_hex c" by simp
  obtain d where d: "digit_value c = Some d" using digit_value_bound [OF c] by blast
  show ?case using Cons d is_hex_not_special(2) [OF c] by simp
qed

lemma py_int16_hex:
  assumes "s \<noteq> []" and "\<forall>c\<in>set s. is_hex c"
  shows "py_int16 s = Inr (hex_value s)"
proof -
  obtain c cs where s: "s = c # cs" using assms(1) by (cases s) auto
  have c: "is_hex c" using assms(2) s by simp
  have drop: "dropWhile py_isspace s = s"
    using is_hex_not_special(1) [OF c] by (simp add: s)
  have sign: "strip_sign s = (False, s)"
    using is_hex_not_special(3,4) [OF c] by (simp add: strip_sign_def s)
  have pre: "strip_prefix16 s = s"
  proof (cases cs)
    case Nil
    then show ?thesis by (simp add: strip_prefix16_def s)
  next
    case (Cons x r)
    then have "is_hex x" using assms(2) s by simp
    then show ?thesis
      using is_hex_not_special(5,6) [of x] by (simp add: strip_prefix16_def s Cons)
  qed
  have hd: "hd s \<noteq> CHR ''_''" using is_hex_not_special(2) [OF c] by (simp add: s)
  show ?thesis
    unfolding py_int16_def drop sign
    using hd assms(1) by (simp add: Let_def pre scan_digits_hex [OF assms(2)] hex_value_def)
qed

lemma hex_value_snoc: "hex_value (s @ [c]) = hex_value s * 16 + int (the (digit_value c))"
  by (simp add: hex_value_def)

lemma hex_value_bounds:
  assumes "\<forall>c\<in>set s. is_hex c"
  shows "0 \<le> hex_value s \<and> hex_value s < 16 ^ length s"
  using assms
proof (induction s rule: rev_induct)
  case Nil
  show ?case by (simp add: hex_value_def)
next
  case (snoc c s)
  then have "is_hex c" by simp
  then obtain d where d: "digit_value c = Some d" "d < 16"
    using digit_value_bound by blast
  have IH: "0 \<le> hex_value s" "hex_value s + 1 \<le> 16 ^ length s" using snoc by simp_all
  have "hex_value s * 16 + int d < (hex_value s + 1) * 16" using d(2) by simp
  also have "\<dots> \<le> 16 ^ length s * 16" using IH(2) by (simp only: mult_le_cancel_right) simp
  finally show ?case using IH(1) d by (simp add: hex_value_snoc)
qed

lemma slice_hex:
  assumes "i + 8 \<le> 40" and "40 \<le> length s" and "\<forall>c\<in>set (take 40 s). is_hex c"
  shows "take 8 (drop i s) \<noteq> []" and "\<forall>c\<in>set (take 8 (drop i s)). is_hex c"
    and "length (take 8 (drop i s)) = 8"
proof -
  show len: "length (take 8 (drop i s)) = 8" using assms(1,2) by simp
  then show "take 8 (drop i s) \<noteq> []" by auto
  have "take 8 (drop i s) = drop i (take (i + 8) (take 40 s))"
    using assms(1) by (simp add: drop_take min_def add.commute)
  then have "set (take 8 (drop i s)) \<subseteq> set (take 40 s)"
    using set_drop_subset [of i "take (i + 8) (take 40 s)"] set_take_subset [of "i + 8" "take 40 s"]
    by simp
  then show "\<forall>c\<in>set (take 8 (drop i s)). is_hex c" using assms(3) by blast
qed

lemma parse_state_hex:
  assumes "40 \<le> length s" and "\<forall>c\<in>set (take 40 s). is_hex c"
  shows "parse_state s = Inr (map (\<lambda>i. hex_value (take 8 (drop i s))) [0, 8, 16, 24, 32])"
proof -
  have p: "py_int16 (take 8 (drop i s)) = Inr (hex_value (take 8 (drop i s)))" if "i + 8 \<le> 40" for i
    using slice_hex(1,2) [OF that assms] by (rule py_int16_hex)
  show ?thesis
    using p [of 0] p [of 8] p [of 16] p [of 24] p [of 32] by (simp add: parse_state_def)
qed

lemma hex_value_in_range32:
  assumes "length s = 8" and "\<forall>c\<in>set s. is_hex c"
  shows "in_range32 (hex_value s)"
  using hex_value_bounds [OF assms(2)] by (simp add: in_range32_def assms(1))

lemma parse_state_hex_ok:
  assumes "40 \<le> length s" and "\<forall>c\<in>set (take 40 s). is_hex c"
  shows "\<exists>a b c d e. parse_state s = Inr [a, b, c, d, e] \<and> state_ok (a, b, c, d, e)"
proof -
  have r: "in_range32 (hex_value (take 8 (drop i s)))" if "i + 8 \<le> 40" for i
    using slice_hex(3,2) [OF that assms] by (rule hex_value_in_range32)
  show ?thesis
    using r [of 0] r [of 8] r [of 16] r [of 24] r [of 32]
    by (simp add: parse_state_hex [OF assms] state_ok_def)
qed

subsection \<open>The range of the chaining state\<close>

lemma state_ok_state_ints: "state_ok (state_ints x)"
proof -
  have "in_range32 (uint w)" for w :: u32
    using uint_bounded [of w] by (simp add: in_range32_def)
  then show ?thesis by (cases x) (simp add: state_ok_def state_ints_def)
qed

lemma sha1_process_block_state_ok:
  assumes "sha1_process_block block h0 h1 h2 h3 h4 = Inr st"
  shows "state_ok st"
proof (cases "length block = 64")
  case True
  then have "st = state_ints (compress_spec (state_words (h0, h1, h2, h3, h4)) block)"
    using assms by (simp add: sha1_process_block_refines)
  then show ?thesis by (simp only: state_ok_state_ints)
next
  case False
  then show ?thesis
    using assms by (simp add: sha1_process_block_def struct_unpack_16I_def)
qed

lemma extend_loop_state_ok:
  assumes "extend_loop pd i st = Inr (ex, st')" and "state_ok st"
  shows "state_ok st'"
  using assms
proof (induction pd i st rule: extend_loop.induct)
  case (1 pd i h0 h1 h2 h3 h4)
  show ?case
  proof (cases "i < length pd \<and> \<not> length (take 64 (drop i pd)) < 64")
    case False
    then show ?thesis
      using "1.prems" by (auto simp add: extend_loop.simps [of pd i] Let_def split: if_splits)
  next
    case True
    then obtain st1 where st1: "sha1_process_block (take 64 (drop i pd)) h0 h1 h2 h3 h4 = Inr st1"
      using sha1_process_block_returns [of "take 64 (drop i pd)" h0 h1 h2 h3 h4] by auto
    have "extend_loop pd (i + 64) st1 = Inr (ex, st')"
      using "1.prems"(1) True st1 by (simp add: extend_loop.simps [of pd i] Let_def)
    moreover have "state_ok st1" using st1 by (rule sha1_process_block_state_ok)
    ultimately show ?thesis
      using "1.IH" [OF _ refl _ st1] True by blast
  qed
qed

lemma fold_compress_state_ok:
  assumes "fold_compress bs st = Inr st'" and "state_ok st"
  shows "state_ok st'"
  using assms
proof (induction bs arbitrary: st)
  case Nil
  then show ?case by simp
next
  case (Cons b bs)
  obtain h0 h1 h2 h3 h4 where st: "st = (h0, h1, h2, h3, h4)" by (cases st) blast
  from Cons.prems(1) obtain st1 where st1: "sha1_process_block b h0 h1 h2 h3 h4 = Inr st1"
    and rest: "fold_compress bs st1 = Inr st'"
    by (auto simp add: st split: sum.splits)
  show ?case using Cons.IH [OF rest sha1_process_block_state_ok [OF st1]] .
qed

subsection \<open>The loop over the blocks\<close>

lemma blocks64_Nil [simp]: "blocks64 [] = []"
  by (simp add: blocks64.simps)

lemma blocks64_Cons: "xs \<noteq> [] \<Longrightarrow> blocks64 xs = take 64 xs # blocks64 (drop 64 xs)"
  by (subst blocks64.simps) simp

lemma full_blocks_short: "length xs < 64 \<Longrightarrow> full_blocks xs = []"
  by (cases "xs = []") (simp_all add: full_blocks_def blocks64_Cons)

lemma full_blocks_long:
  "64 \<le> length xs \<Longrightarrow> full_blocks xs = take 64 xs # full_blocks (drop 64 xs)"
  by (cases "xs = []") (simp_all add: full_blocks_def blocks64_Cons)

lemma dvd64_step:
  fixes n i :: nat
  assumes "i + 64 \<le> n"
  shows "64 dvd (n - i) \<longleftrightarrow> 64 dvd (n - (i + 64))"
proof -
  have "n - i = (n - (i + 64)) + 64" using assms by simp
  then show ?thesis by (simp only: dvd_add_triv_right_iff)
qed

lemma extend_loop_eq:
  assumes "i \<le> length pd"
  shows "extend_loop pd i st
    = (case fold_compress (full_blocks (drop i pd)) st of
         Inl err \<Rightarrow> Inl err
       | Inr st' \<Rightarrow> Inr (if 64 dvd (length pd - i) then Exhausted else Broke, st'))"
  using assms
proof (induction pd i st rule: extend_loop.induct)
  case (1 pd i h0 h1 h2 h3 h4)
  define block where "block = take 64 (drop i pd)"
  consider (past) "\<not> i < length pd" | (short) "i < length pd" "length block < 64"
    | (full) "i < length pd" "\<not> length block < 64" by blast
  then show ?case
  proof cases
    case past
    then have i: "i = length pd" using "1.prems" by simp
    have "extend_loop pd i (h0, h1, h2, h3, h4) = Inr (Exhausted, h0, h1, h2, h3, h4)"
      using past by (simp add: extend_loop.simps [of pd i])
    then show ?thesis by (simp add: i full_blocks_short)
  next
    case short
    then have lt: "length pd - i < 64" by (simp add: block_def)
    then have "\<not> 64 dvd (length pd - i)" using short(1) by (auto dest: dvd_imp_le)
    moreover have "full_blocks (drop i pd) = []" using lt by (simp add: full_blocks_short)
    ultimately show ?thesis
      using short by (simp add: extend_loop.simps [of pd i] block_def [symmetric])
  next
    case full
    then have len: "length block = 64" by (simp add: block_def)
    then have le: "i + 64 \<le> length pd" by (simp add: block_def)
    obtain st1 where st1: "sha1_process_block block h0 h1 h2 h3 h4 = Inr st1"
      using sha1_process_block_returns [OF len] by blast
    have IH: "extend_loop pd (i + 64) st1
        = (case fold_compress (full_blocks (drop (i + 64) pd)) st1 of
             Inl err \<Rightarrow> Inl err
           | Inr st' \<Rightarrow> Inr (if 64 dvd (length pd - (i + 64)) then Exhausted else Broke, st'))"
      using "1.IH" [OF full(1) block_def full(2) st1 le] .
    have fb: "full_blocks (drop i pd) = block # full_blocks (drop (i + 64) pd)"
      using le by (simp add: full_blocks_long block_def add.commute)
    have "extend_loop pd i (h0, h1, h2, h3, h4) = extend_loop pd (i + 64) st1"
      using full st1 by (simp add: extend_loop.simps [of pd i] block_def [symmetric])
    then show ?thesis
      unfolding IH fb by (simp add: st1 dvd64_step [OF le])
  qed
qed

subsection \<open>Blocks of 64 bytes\<close>

lemma dvd64_length:
  fixes xs :: "'a list"
  assumes "64 dvd length xs" and "xs \<noteq> []"
  shows "64 \<le> length xs" and "64 dvd length (drop 64 xs)"
proof -
  show le: "64 \<le> length xs" using assms by (auto dest: dvd_imp_le)
  have "length xs = length (drop 64 xs) + 64" using le by simp
  then show "64 dvd length (drop 64 xs)"
    using assms(1) by (simp only: dvd_add_triv_right_iff)
qed

lemma concat_blocks64: "concat (blocks64 xs) = xs"
proof (induction xs rule: blocks64.induct)
  case (1 xs)
  show ?case
  proof (cases "xs = []")
    case True
    then show ?thesis by simp
  next
    case False
    have "concat (blocks64 xs) = take 64 xs @ concat (blocks64 (drop 64 xs))"
      by (simp only: blocks64_Cons [OF False] concat.simps)
    also have "\<dots> = take 64 xs @ drop 64 xs" by (simp only: "1.IH" [OF False])
    finally show ?thesis by (simp only: append_take_drop_id)
  qed
qed

lemma blocks64_aligned:
  assumes "64 dvd length xs"
  shows "\<forall>b\<in>set (blocks64 xs). length b = 64"
  using assms
proof (induction xs rule: blocks64.induct)
  case (1 xs)
  show ?case
  proof (cases "xs = []")
    case True
    then show ?thesis by simp
  next
    case False
    have le: "64 \<le> length xs" using dvd64_length(1) [OF "1.prems" False] .
    have hd: "length (take 64 xs) = 64" using le by simp
    have tl: "\<forall>b\<in>set (blocks64 (drop 64 xs)). length b = 64"
      using "1.IH" [OF False dvd64_length(2) [OF "1.prems" False]] .
    show ?thesis
      unfolding blocks64_Cons [OF False] using hd tl by (simp only: set_simps ball_simps)
  qed
qed

lemma full_blocks_aligned:
  assumes "64 dvd length xs"
  shows "full_blocks xs = blocks64 xs"
  unfolding full_blocks_def using blocks64_aligned [OF assms] by (simp only: filter_id_conv)



lemma fold_compress_returns:
  assumes "\<forall>b\<in>set bs. length b = 64"
  shows "\<exists>st'. fold_compress bs st = Inr st'"
  using assms
proof (induction bs arbitrary: st)
  case Nil
  show ?case by (rule exI [of _ st]) simp
next
  case (Cons b bs)
  obtain h0 h1 h2 h3 h4 where st: "st = (h0, h1, h2, h3, h4)" by (rule prod_cases5)
  have "length b = 64" using Cons.prems by simp
  then obtain st1 where st1: "sha1_process_block b h0 h1 h2 h3 h4 = Inr st1"
    using sha1_process_block_returns by blast
  have "\<exists>st'. fold_compress bs st1 = Inr st'" using Cons by simp
  then obtain st' where "fold_compress bs st1 = Inr st'" by (rule exE)
  then have "fold_compress (b # bs) st = Inr st'" by (simp add: st st1)
  then show ?case by (rule exI)
qed

lemma full_blocks_lengths: "\<forall>b\<in>set (full_blocks xs). length b = 64"
  by (simp add: full_blocks_def)

lemma extend_loop_returns:
  "\<exists>st'. extend_loop pd 0 st = Inr (if 64 dvd length pd then Exhausted else Broke, st')
     \<and> fold_compress (full_blocks pd) st = Inr st'"
proof -
  obtain st' where st': "fold_compress (full_blocks pd) st = Inr st'"
    using fold_compress_returns [OF full_blocks_lengths] by blast
  have a: "extend_loop pd 0 st = Inr (if 64 dvd length pd then Exhausted else Broke, st')"
    using extend_loop_eq [of 0 pd st] by (simp add: st')
  show ?thesis by (rule exI [of _ st'], rule conjI [OF a st'])
qed

subsection \<open>The invariant of the chaining state\<close>

text \<open>
  Claim C8. Every chaining state the program produces has five integers in
  \<open>[0, 2^32)\<close>: the state \<^verbatim>\<open>sha1_process_block\<close> returns, whatever integers it is given;
  the state parsed from 40 hexadecimal digits; and the state after the loop over the
  blocks, when the loop starts from such a state.
\<close>

theorem chaining_state_invariant:
  "(sha1_process_block block h0 h1 h2 h3 h4 = Inr st \<longrightarrow> state_ok st)
   \<and> (length s = 40 \<and> (\<forall>c\<in>set s. is_hex c)
        \<longrightarrow> (\<exists>a b c d e. parse_state s = Inr [a, b, c, d, e] \<and> state_ok (a, b, c, d, e)))
   \<and> (state_ok st0 \<and> extend_loop pd i st0 = Inr (ex, st') \<longrightarrow> state_ok st')"
proof (intro conjI impI)
  assume "sha1_process_block block h0 h1 h2 h3 h4 = Inr st"
  then show "state_ok st" by (rule sha1_process_block_state_ok)
next
  assume a: "length s = 40 \<and> (\<forall>c\<in>set s. is_hex c)"
  then have "40 \<le> length s" and "\<forall>c\<in>set (take 40 s). is_hex c" by simp_all
  then show "\<exists>a b c d e. parse_state s = Inr [a, b, c, d, e] \<and> state_ok (a, b, c, d, e)"
    by (rule parse_state_hex_ok)
next
  assume "state_ok st0 \<and> extend_loop pd i st0 = Inr (ex, st')"
  then show "state_ok st'" using extend_loop_state_ok by blast
qed

theorem chaining_state_invariant_witness:
  "(\<exists>st. sha1_process_block (replicate 64 0) 1 2 3 4 5 = Inr st \<and> state_ok st)
   \<and> (length (replicate 40 CHR ''a'') = 40 \<and> is_hex CHR ''a''
      \<and> (\<exists>a b c d e. parse_state (replicate 40 CHR ''a'') = Inr [a, b, c, d, e]
            \<and> state_ok (a, b, c, d, e)))
   \<and> (state_ok (1, 2, 3, 4, 5)
      \<and> (\<exists>ex st'. extend_loop (replicate 64 0) 0 (1, 2, 3, 4, 5) = Inr (ex, st') \<and> state_ok st'))"
proof -
  have len: "length (replicate 64 (0 :: byte)) = 64" by (simp only: length_replicate)
  obtain st where st: "sha1_process_block (replicate 64 0) 1 2 3 4 5 = Inr st"
    using sha1_process_block_returns [OF len] by blast
  obtain st' where st': "extend_loop (replicate 64 0) 0 (1, 2, 3, 4, 5)
      = Inr (if 64 dvd length (replicate 64 (0 :: byte)) then Exhausted else Broke, st')"
    using extend_loop_returns [of "replicate 64 0" "(1, 2, 3, 4, 5)"] by blast
  define ex where "ex = (if 64 dvd length (replicate 64 (0 :: byte)) then Exhausted else Broke)"
  have hex: "length (replicate 40 CHR ''a'') = 40 \<and> (\<forall>c\<in>set (replicate 40 CHR ''a''). is_hex c)"
    by (simp add: is_hex_def digit_value_def)
  have ok: "state_ok (1, 2, 3, 4, 5)" by (simp add: state_ok_def in_range32_def)
  note inst = chaining_state_invariant [of "replicate 64 0" 1 2 3 4 5 st "replicate 40 CHR ''a''"
      "(1, 2, 3, 4, 5)" "replicate 64 0" 0 ex st']
  have p1: "state_ok st" using inst st by blast
  have p2: "\<exists>a b c d e. parse_state (replicate 40 CHR ''a'') = Inr [a, b, c, d, e]
      \<and> state_ok (a, b, c, d, e)"
    using inst hex by blast
  have p3: "state_ok st'" using inst ok st' unfolding ex_def by blast
  have e1: "\<exists>st. sha1_process_block (replicate 64 0) 1 2 3 4 5 = Inr st \<and> state_ok st"
    using st p1 by blast
  have e3: "\<exists>ex st'. extend_loop (replicate 64 0) 0 (1, 2, 3, 4, 5) = Inr (ex, st') \<and> state_ok st'"
    using st' p3 by blast
  have hexa: "is_hex CHR ''a''" by (simp add: is_hex_def digit_value_def)
  have len40: "length (replicate 40 CHR ''a'') = 40" by simp
  show ?thesis by (intro conjI e1 len40 hexa p2 ok e3)
qed

subsection \<open>Padding, alignment and packing\<close>

lemma sha1_padding_eq:
  "sha1_padding L =
     (if 0 \<le> L \<and> L * 8 < 2 ^ 64
      then Inr ([0x80] @ replicate (nat ((56 - (L + 1) mod 64) mod 64)) 0x00 @ be_bytes 8 (L * 8))
      else Inl StructError)"
  by (simp add: sha1_padding_def struct_pack_Q_def Let_def)

lemma sha1_padding_Inr:
  assumes "sha1_padding L = Inr p"
  shows "0 \<le> L" and "L * 8 < 2 ^ 64" and "(L + int (length p)) mod 64 = 0"
    and "9 \<le> length p" and "length p \<le> 72"
proof -
  define z where "z = (56 - (L + 1) mod 64) mod 64"
  have ok: "0 \<le> L \<and> L * 8 < 2 ^ 64"
    using assms unfolding sha1_padding_eq by (simp split: if_splits)
  then show "0 \<le> L" and "L * 8 < 2 ^ 64" by simp_all
  have p: "p = [0x80] @ replicate (nat z) 0x00 @ be_bytes 8 (L * 8)"
    using assms ok unfolding sha1_padding_eq z_def by simp
  have z: "0 \<le> z" "z < 64" by (simp_all add: z_def)
  have len: "int (length p) = 9 + z" using z by (simp add: p)
  have "(L + int (length p)) mod 64 = (L + 1 + z + 8) mod 64"
    by (simp add: len algebra_simps)
  also have "\<dots> = ((L + 1 + z) mod 64 + 8) mod 64"
    by (simp only: mod_add_left_eq)
  also have "\<dots> = 0" unfolding z_def by (simp add: pad_zero_sum)
  finally show "(L + int (length p)) mod 64 = 0" .
  show "9 \<le> length p" using len z by linarith
  show "length p \<le> 72" using len z by linarith
qed

lemma sha1_padding_returns:
  assumes "0 \<le> L" and "L * 8 < 2 ^ 64"
  shows "\<exists>p. sha1_padding L = Inr p"
  using assms unfolding sha1_padding_eq by simp

lemma int_mod64_dvd: "int m mod 64 = 0 \<longleftrightarrow> 64 dvd m"
proof -
  have "int m mod 64 = int (m mod 64)" by (simp add: zmod_int)
  then have "int m mod 64 = 0 \<longleftrightarrow> m mod 64 = 0" by simp
  then show ?thesis by (simp only: dvd_eq_mod_eq_0)
qed

lemma aligned_suffix:
  fixes a :: int and m :: nat
  assumes "(a + int m) mod 64 = 0"
  shows "64 dvd m \<longleftrightarrow> a mod 64 = 0"
proof
  assume "64 dvd m"
  then have "int m mod 64 = 0" by (simp only: int_mod64_dvd)
  then have "(a + int m) mod 64 = a mod 64"
    using mod_add_right_eq [of a "int m" 64] by simp
  then show "a mod 64 = 0" using assms by simp
next
  assume "a mod 64 = 0"
  then have "(a + int m) mod 64 = int m mod 64"
    using mod_add_left_eq [of a 64 "int m"] by simp
  then have "int m mod 64 = 0" using assms by simp
  then show "64 dvd m" by (simp only: int_mod64_dvd)
qed


lemma struct_pack_5I_returns:
  assumes "state_ok (a, b, c, d, e)"
  shows "\<exists>bs. struct_pack_5I a b c d e = Inr bs"
  using assms by (simp add: struct_pack_5I_def state_ok_def in_range32_def)

lemma length_collect:
  assumes "collect rs = Inr xs"
  shows "length xs = length rs"
  using assms
proof (induction rs arbitrary: xs)
  case Nil
  then show ?case by simp
next
  case (Cons r rs)
  then show ?case by (auto split: sum.splits)
qed

lemma parse_state_length:
  assumes "parse_state hx = Inr h"
  shows "\<exists>h0 h1 h2 h3 h4. h = [h0, h1, h2, h3, h4]"
proof -
  have "length h = 5" using length_collect [OF assms [unfolded parse_state_def]] by simp
  then show ?thesis by (auto simp add: eval_nat_numeral length_Suc_conv)
qed

subsection \<open>Continuing a hash from a state\<close>

lemma sha1_extend_hash_eq:
  assumes "sha1_padding (prev + int (length data)) = Inr p"
    and "fold_compress (full_blocks (data @ p)) (h0, h1, h2, h3, h4) = Inr (a, b, c, d, e)"
  shows "sha1_extend_hash [h0, h1, h2, h3, h4] data prev = struct_pack_5I a b c d e"
proof -
  have "extend_loop (data @ p) 0 (h0, h1, h2, h3, h4)
      = Inr (if 64 dvd length (data @ p) then Exhausted else Broke, (a, b, c, d, e))"
    using extend_loop_eq [of 0 "data @ p" "(h0, h1, h2, h3, h4)"] by (simp add: assms(2))
  then show ?thesis
    by (simp add: sha1_extend_hash_def Let_def assms(1))
qed



subsection \<open>The forgery\<close>

lemma fold_compress_nonempty_ok:
  assumes "fold_compress bs st = Inr st'" and "bs \<noteq> []"
  shows "state_ok st'"
proof -
  obtain b rest where bs: "bs = b # rest" using assms(2) by (cases bs) auto
  obtain h0 h1 h2 h3 h4 where st: "st = (h0, h1, h2, h3, h4)" by (rule prod_cases5)
  from assms(1) obtain st1 where st1: "sha1_process_block b h0 h1 h2 h3 h4 = Inr st1"
    and rest: "fold_compress rest st1 = Inr st'"
    by (auto simp add: bs st split: sum.splits)
  show ?thesis using fold_compress_state_ok [OF rest sha1_process_block_state_ok [OF st1]] .
qed

lemma sha1_extend_steps:
  assumes "parse_state hx = Inr h"
    and "sha1_padding (n + int (length K)) = Inr p"
    and "sha1_padding (n + int (length K) + int (length p) + int (length A)) = Inr t"
  shows "\<exists>h0 h1 h2 h3 h4 a b c d e dg.
           h = [h0, h1, h2, h3, h4]
           \<and> 64 dvd length (A @ t)
           \<and> extend_loop (A @ t) 0 (h0, h1, h2, h3, h4) = Inr (Exhausted, (a, b, c, d, e))
           \<and> fold_compress (blocks64 (A @ t)) (h0, h1, h2, h3, h4) = Inr (a, b, c, d, e)
           \<and> state_ok (a, b, c, d, e)
           \<and> struct_pack_5I a b c d e = Inr dg
           \<and> sha1_extend_hash h A (n + int (length K) + int (length p)) = Inr dg
           \<and> sha1_extend hx K A n = Inr (bytes_hex dg, K @ p @ A)"
proof -
  define prev where "prev = n + int (length K) + int (length p)"
  obtain h0 h1 h2 h3 h4 where h: "h = [h0, h1, h2, h3, h4]"
    using parse_state_length [OF assms(1)] by blast
  have prev0: "prev mod 64 = 0" unfolding prev_def by (rule sha1_padding_Inr(3) [OF assms(2)])
  have t: "sha1_padding (prev + int (length A)) = Inr t" using assms(3) by (simp only: prev_def)
  have al: "(prev + int (length (A @ t))) mod 64 = 0"
    using sha1_padding_Inr(3) [OF t] by (simp add: add.assoc)
  have dvd: "64 dvd length (A @ t)"
    using prev0 by (simp only: aligned_suffix [OF al])
  have "9 \<le> length t" by (rule sha1_padding_Inr(4) [OF t])
  then have ne: "A @ t \<noteq> []" by auto
  have fb: "full_blocks (A @ t) = blocks64 (A @ t)" by (rule full_blocks_aligned [OF dvd])
  have bne: "blocks64 (A @ t) \<noteq> []" by (simp only: blocks64_Cons [OF ne]) simp
  obtain st where loop: "extend_loop (A @ t) 0 (h0, h1, h2, h3, h4)
      = Inr (if 64 dvd length (A @ t) then Exhausted else Broke, st)"
    and fold: "fold_compress (full_blocks (A @ t)) (h0, h1, h2, h3, h4) = Inr st"
    using extend_loop_returns [of "A @ t" "(h0, h1, h2, h3, h4)"] by blast
  obtain a b c d e where st: "st = (a, b, c, d, e)" by (rule prod_cases5)
  have fold': "fold_compress (blocks64 (A @ t)) (h0, h1, h2, h3, h4) = Inr (a, b, c, d, e)"
    using fold by (simp only: fb st)
  have ok: "state_ok (a, b, c, d, e)" by (rule fold_compress_nonempty_ok [OF fold' bne])
  obtain dg where dg: "struct_pack_5I a b c d e = Inr dg"
    using struct_pack_5I_returns [OF ok] by blast
  have exh: "extend_loop (A @ t) 0 (h0, h1, h2, h3, h4) = Inr (Exhausted, (a, b, c, d, e))"
    using loop dvd by (simp only: st if_True)
  have hash: "sha1_extend_hash h A prev = Inr dg"
    using sha1_extend_hash_eq [OF t fold [unfolded st]] dg by (simp only: h)
  have ext: "sha1_extend hx K A n = Inr (bytes_hex dg, K @ p @ A)"
    using hash by (simp add: sha1_extend_def Let_def assms(1,2) prev_def)
  show ?thesis
    using h dvd exh fold' ok dg hash [unfolded prev_def] ext by (intro exI conjI)
qed

text \<open>
  Claim C4. Whenever \<^verbatim>\<open>sha1_extend\<close> returns, its forged suffix is the known suffix,
  then the padding of the assumed original length \<open>n + len(K)\<close>, then the appended
  bytes; and it does return when the digest parses and the two paddings exist.
\<close>

theorem sha1_extend_forged_suffix:
  "(sha1_extend hx K A n = Inr (dg, sfx)
      \<longrightarrow> (\<exists>p. sha1_padding (n + int (length K)) = Inr p \<and> sfx = K @ p @ A))
   \<and> (parse_state hx = Inr h \<and> sha1_padding (n + int (length K)) = Inr p
        \<and> sha1_padding (n + int (length K) + int (length p) + int (length A)) = Inr t
      \<longrightarrow> (\<exists>dg'. sha1_extend hx K A n = Inr (dg', K @ p @ A)))"
proof (intro conjI impI)
  assume "sha1_extend hx K A n = Inr (dg, sfx)"
  then show "\<exists>p. sha1_padding (n + int (length K)) = Inr p \<and> sfx = K @ p @ A"
    by (auto simp add: sha1_extend_def Let_def split: sum.splits)
next
  assume a: "parse_state hx = Inr h \<and> sha1_padding (n + int (length K)) = Inr p
        \<and> sha1_padding (n + int (length K) + int (length p) + int (length A)) = Inr t"
  then have a1: "parse_state hx = Inr h" and a2: "sha1_padding (n + int (length K)) = Inr p"
    and a3: "sha1_padding (n + int (length K) + int (length p) + int (length A)) = Inr t"
    by simp_all
  show "\<exists>dg'. sha1_extend hx K A n = Inr (dg', K @ p @ A)"
    using sha1_extend_steps [OF a1 a2 a3] by blast
qed


theorem sha1_extend_forged_suffix_witness:
  "\<exists>h p t dg sfx.
     sha1_extend (replicate 40 CHR ''a'') [65, 124, 53] [124, 49] 8 = Inr (dg, sfx)
     \<and> (\<exists>q. sha1_padding (8 + int (length [65, 124, 53 :: byte])) = Inr q
            \<and> sfx = [65, 124, 53] @ q @ [124, 49])
     \<and> parse_state (replicate 40 CHR ''a'') = Inr h
     \<and> sha1_padding (8 + int (length [65, 124, 53 :: byte])) = Inr p
     \<and> sha1_padding (8 + int (length [65, 124, 53 :: byte]) + int (length p)
          + int (length [124, 49 :: byte])) = Inr t
     \<and> (\<exists>dg'. sha1_extend (replicate 40 CHR ''a'') [65, 124, 53] [124, 49] 8
            = Inr (dg', [65, 124, 53] @ p @ [124, 49]))"
proof -
  define hx where "hx = replicate 40 CHR ''a''"
  define K :: "byte list" where "K = [65, 124, 53]"
  define A :: "byte list" where "A = [124, 49]"
  have "40 \<le> length hx" and "\<forall>c\<in>set (take 40 hx). is_hex c"
    by (simp_all add: hx_def is_hex_def digit_value_def)
  then obtain h where h: "parse_state hx = Inr h"
    using parse_state_hex_ok by blast
  obtain p where p: "sha1_padding (8 + int (length K)) = Inr p"
    using sha1_padding_returns [of "8 + int (length K)"] by (auto simp add: K_def)
  have lp: "length p \<le> 72" by (rule sha1_padding_Inr(5) [OF p])
  obtain t where t: "sha1_padding (8 + int (length K) + int (length p) + int (length A)) = Inr t"
    using sha1_padding_returns [of "8 + int (length K) + int (length p) + int (length A)"] lp
    by (auto simp add: K_def A_def)
  note inst = sha1_extend_forged_suffix [of hx K A 8 _ _ h p t]
  obtain dg where dg: "sha1_extend hx K A 8 = Inr (dg, K @ p @ A)"
    using inst h p t by blast
  have "\<exists>q. sha1_padding (8 + int (length K)) = Inr q \<and> K @ p @ A = K @ q @ A"
    using sha1_extend_forged_suffix [of hx K A 8 dg "K @ p @ A" h p t] dg by blast
  then have "sha1_extend hx K A 8 = Inr (dg, K @ p @ A)
     \<and> (\<exists>q. sha1_padding (8 + int (length K)) = Inr q \<and> K @ p @ A = K @ q @ A)
     \<and> parse_state hx = Inr h
     \<and> sha1_padding (8 + int (length K)) = Inr p
     \<and> sha1_padding (8 + int (length K) + int (length p) + int (length A)) = Inr t
     \<and> (\<exists>dg'. sha1_extend hx K A 8 = Inr (dg', K @ p @ A))"
    using dg h p t by blast
  then show ?thesis unfolding hx_def K_def A_def by blast
qed

text \<open>
  Claim C5. In \<^verbatim>\<open>sha1_extend\<close> the previous length handed to \<^verbatim>\<open>sha1_extend_hash\<close>, the
  assumed secret length plus the lengths of the known suffix and of its padding, is a
  multiple of 64. So the appended bytes and their padding split into blocks of exactly
  64 bytes, the loop ends by exhausting its range and never through the \<^verbatim>\<open>break\<close>, and
  the compression function is folded over every byte.
\<close>

theorem sha1_extend_break_unreachable:
  assumes "parse_state hx = Inr h" and "sha1_padding (n + int (length K)) = Inr p"
  shows "(n + int (length K) + int (length p)) mod 64 = 0
    \<and> sha1_extend hx K A n
        = (case sha1_extend_hash h A (n + int (length K) + int (length p)) of
             Inl err \<Rightarrow> Inl err
           | Inr d \<Rightarrow> Inr (bytes_hex d, K @ p @ A))
    \<and> (\<forall>t. sha1_padding (n + int (length K) + int (length p) + int (length A)) = Inr t
          \<longrightarrow> 64 dvd length (A @ t)
              \<and> concat (blocks64 (A @ t)) = A @ t
              \<and> (\<forall>b\<in>set (blocks64 (A @ t)). length b = 64)
              \<and> (\<exists>h0 h1 h2 h3 h4 st. h = [h0, h1, h2, h3, h4]
                   \<and> extend_loop (A @ t) 0 (h0, h1, h2, h3, h4) = Inr (Exhausted, st)
                   \<and> fold_compress (blocks64 (A @ t)) (h0, h1, h2, h3, h4) = Inr st))"
proof (intro conjI allI impI)
  show "(n + int (length K) + int (length p)) mod 64 = 0"
    by (rule sha1_padding_Inr(3) [OF assms(2)])
  show "sha1_extend hx K A n
        = (case sha1_extend_hash h A (n + int (length K) + int (length p)) of
             Inl err \<Rightarrow> Inl err
           | Inr d \<Rightarrow> Inr (bytes_hex d, K @ p @ A))"
    by (simp add: sha1_extend_def Let_def assms)
next
  fix t
  assume t: "sha1_padding (n + int (length K) + int (length p) + int (length A)) = Inr t"
  note steps = sha1_extend_steps [OF assms t]
  show dvd: "64 dvd length (A @ t)" using steps by blast
  show "concat (blocks64 (A @ t)) = A @ t" by (rule concat_blocks64)
  show "\<forall>b\<in>set (blocks64 (A @ t)). length b = 64" by (rule blocks64_aligned [OF dvd])
  show "\<exists>h0 h1 h2 h3 h4 st. h = [h0, h1, h2, h3, h4]
      \<and> extend_loop (A @ t) 0 (h0, h1, h2, h3, h4) = Inr (Exhausted, st)
      \<and> fold_compress (blocks64 (A @ t)) (h0, h1, h2, h3, h4) = Inr st"
    using steps by blast
qed


theorem sha1_extend_break_unreachable_witness:
  "\<exists>h p. parse_state (replicate 40 CHR ''a'') = Inr h
     \<and> sha1_padding (8 + int (length [65, 124, 53 :: byte])) = Inr p
     \<and> ((8 + int (length [65, 124, 53 :: byte]) + int (length p)) mod 64 = 0
    \<and> sha1_extend (replicate 40 CHR ''a'') [65, 124, 53] [124, 49] 8
        = (case sha1_extend_hash h [124, 49] (8 + int (length [65, 124, 53 :: byte]) + int (length p)) of
             Inl err \<Rightarrow> Inl err
           | Inr d \<Rightarrow> Inr (bytes_hex d, [65, 124, 53] @ p @ [124, 49]))
    \<and> (\<forall>t. sha1_padding (8 + int (length [65, 124, 53 :: byte]) + int (length p)
               + int (length [124, 49 :: byte])) = Inr t
          \<longrightarrow> 64 dvd length ([124, 49] @ t)
              \<and> concat (blocks64 ([124, 49] @ t)) = [124, 49] @ t
              \<and> (\<forall>b\<in>set (blocks64 ([124, 49] @ t)). length b = 64)
              \<and> (\<exists>h0 h1 h2 h3 h4 st. h = [h0, h1, h2, h3, h4]
                   \<and> extend_loop ([124, 49] @ t) 0 (h0, h1, h2, h3, h4) = Inr (Exhausted, st)
                   \<and> fold_compress (blocks64 ([124, 49] @ t)) (h0, h1, h2, h3, h4) = Inr st)))"
proof -
  have "40 \<le> length (replicate 40 CHR ''a'')"
    and "\<forall>c\<in>set (take 40 (replicate 40 CHR ''a'')). is_hex c"
    by (simp_all add: is_hex_def digit_value_def)
  then obtain h where h: "parse_state (replicate 40 CHR ''a'') = Inr h"
    using parse_state_hex_ok by blast
  obtain p where p: "sha1_padding (8 + int (length [65, 124, 53 :: byte])) = Inr p"
    using sha1_padding_returns [of "8 + int (length [65, 124, 53 :: byte])"] by auto
  show ?thesis
    by (rule exI [of _ h], rule exI [of _ p])
      (intro conjI h p sha1_extend_break_unreachable [OF h p, of "[124, 49]"])
qed

subsection \<open>Hexadecimal digests\<close>

lemma digit_value_hex_char:
  assumes "n < 16"
  shows "digit_value (hex_char n) = Some n"
proof (cases "n < 10")
  case True
  then have "(of_char (hex_char n) :: nat) = 48 + n" by (simp add: hex_char_def)
  then show ?thesis using True by (simp add: digit_value_def)
next
  case False
  then have "(of_char (hex_char n) :: nat) = 87 + n" using assms by (simp add: hex_char_def)
  then show ?thesis using False assms by (simp add: digit_value_def)
qed

lemma is_hex_hex_char: "n < 16 \<Longrightarrow> is_hex (hex_char n)"
  by (simp add: is_hex_def digit_value_hex_char)

lemma nibbles:
  fixes b :: byte
  shows "unat b div 16 < 16" and "unat b mod 16 < 16"
    and "int (unat b div 16) * 16 + int (unat b mod 16) = uint b"
proof -
  have "unat b < 256" using unsigned_less [of b, where ?'a = nat] by simp
  then show "unat b div 16 < 16" by simp
  show "unat b mod 16 < 16" by simp
  have "unat b div 16 * 16 + unat b mod 16 = unat b" by simp
  then have "int (unat b div 16 * 16 + unat b mod 16) = int (unat b)" by (simp only:)
  then show "int (unat b div 16) * 16 + int (unat b mod 16) = uint b"
    by (simp only: uint_nat of_nat_add of_nat_mult)
qed

lemma bytes_hex_Nil [simp]: "bytes_hex [] = []"
  by (simp add: bytes_hex_def)

lemma bytes_hex_Cons:
  "bytes_hex (b # bs) = hex_char (unat b div 16) # hex_char (unat b mod 16) # bytes_hex bs"
  by (simp add: bytes_hex_def)

lemma bytes_hex_append: "bytes_hex (as @ bs) = bytes_hex as @ bytes_hex bs"
  by (simp add: bytes_hex_def)

lemma length_bytes_hex [simp]: "length (bytes_hex bs) = 2 * length bs"
  by (induction bs) (simp_all add: bytes_hex_Cons)

lemma bytes_hex_is_hex: "\<forall>c\<in>set (bytes_hex bs). is_hex c"
  by (induction bs) (simp_all add: bytes_hex_Cons is_hex_hex_char nibbles)

lemma take_bytes_hex: "take (2 * k) (bytes_hex bs) = bytes_hex (take k bs)"
proof (induction bs arbitrary: k)
  case Nil
  show ?case by simp
next
  case (Cons b bs)
  show ?case
  proof (cases k)
    case 0
    then show ?thesis by simp
  next
    case (Suc j)
    then show ?thesis using Cons [of j] by (simp add: bytes_hex_Cons)
  qed
qed

lemma drop_bytes_hex: "drop (2 * k) (bytes_hex bs) = bytes_hex (drop k bs)"
proof (induction bs arbitrary: k)
  case Nil
  show ?case by simp
next
  case (Cons b bs)
  show ?case
  proof (cases k)
    case 0
    then show ?thesis by simp
  next
    case (Suc j)
    then show ?thesis using Cons [of j] by (simp add: bytes_hex_Cons)
  qed
qed

lemma hex_value_bytes_hex: "hex_value (bytes_hex bs) = be_int bs"
proof (induction bs rule: rev_induct)
  case Nil
  show ?case by (simp add: hex_value_def be_int_def)
next
  case (snoc b bs)
  have "hex_value (bytes_hex (bs @ [b]))
      = (hex_value (bytes_hex bs) * 16 + int (unat b div 16)) * 16 + int (unat b mod 16)"
    by (simp add: bytes_hex_append bytes_hex_Cons hex_value_def digit_value_hex_char nibbles)
  also have "\<dots> = be_int bs * 256 + (int (unat b div 16) * 16 + int (unat b mod 16))"
    by (simp add: snoc.IH algebra_simps)
  also have "\<dots> = be_int (bs @ [b])"
    by (simp only: nibbles(3) be_int_snoc)
  finally show ?case .
qed

lemma be_int_bounds: "0 \<le> be_int bs \<and> be_int bs < 256 ^ length bs"
proof (induction bs rule: rev_induct)
  case Nil
  show ?case by (simp add: be_int_def)
next
  case (snoc b bs)
  have b: "0 \<le> uint b" "uint b < 256" using uint_lt2p [of b] by simp_all
  have IH: "0 \<le> be_int bs" "be_int bs + 1 \<le> 256 ^ length bs" using snoc by simp_all
  have "be_int bs * 256 + uint b < (be_int bs + 1) * 256" using b by simp
  also have "\<dots> \<le> 256 ^ length bs * 256" using IH(2) by (simp only: mult_le_cancel_right) simp
  finally show ?case using IH(1) b by (simp add: be_int_snoc)
qed

lemma be_bytes_be_int: "be_bytes (length bs) (be_int bs) = bs"
proof (induction bs rule: rev_induct)
  case Nil
  show ?case by simp
next
  case (snoc b bs)
  have b: "0 \<le> uint b" "uint b < 256" using uint_lt2p [of b] by simp_all
  have d: "(be_int bs * 256 + uint b) div 256 = be_int bs" using b by simp
  have m: "(be_int bs * 256 + uint b) mod 256 = uint b" using b by simp
  have m': "uint b mod 256 = uint b" using b by simp
  show ?case by (simp add: be_int_snoc d snoc.IH m' word_of_int_uint)
qed

subsection \<open>Parsing and packing a digest\<close>

lemma slice_bytes_hex: "take 8 (drop (2 * j) (bytes_hex d)) = bytes_hex (take 4 (drop j d))"
  using take_bytes_hex [of 4 "drop j d"] by (simp add: drop_bytes_hex)

lemma parse_state_bytes_hex:
  assumes "length d = 20"
  shows "parse_state (bytes_hex d)
    = Inr [be_int (take 4 d), be_int (take 4 (drop 4 d)), be_int (take 4 (drop 8 d)),
           be_int (take 4 (drop 12 d)), be_int (take 4 (drop 16 d))]"
proof -
  have len: "40 \<le> length (bytes_hex d)" using assms by simp
  have hex: "\<forall>c\<in>set (take 40 (bytes_hex d)). is_hex c"
    using bytes_hex_is_hex [of d] by (auto dest: in_set_takeD)
  have s: "hex_value (take 8 (drop (2 * j) (bytes_hex d))) = be_int (take 4 (drop j d))" for j
    by (simp only: slice_bytes_hex hex_value_bytes_hex)
  show ?thesis
    using s [of 0] s [of 4] s [of 8] s [of 12] s [of 16]
    by (simp add: parse_state_hex [OF len hex])
qed

lemma chunks20:
  assumes "length d = 20"
  shows "take 4 d @ take 4 (drop 4 d) @ take 4 (drop 8 d) @ take 4 (drop 12 d)
      @ take 4 (drop 16 d) = d"
proof -
  have a: "take 4 (drop k d) @ drop (k + 4) d = drop k d" for k
    using append_take_drop_id [of 4 "drop k d"] by (simp add: add.commute)
  have "take 4 (drop 16 d) = drop 16 d" using assms by simp
  then have "take 4 (drop 12 d) @ take 4 (drop 16 d) = drop 12 d" using a [of 12] by simp
  then have "take 4 (drop 8 d) @ take 4 (drop 12 d) @ take 4 (drop 16 d) = drop 8 d"
    using a [of 8] by simp
  then have "take 4 (drop 4 d) @ take 4 (drop 8 d) @ take 4 (drop 12 d) @ take 4 (drop 16 d)
      = drop 4 d"
    using a [of 4] by simp
  then show ?thesis using a [of 0] by simp
qed

lemma be_int_in_range32:
  assumes "length bs = 4"
  shows "in_range32 (be_int bs)"
  using be_int_bounds [of bs] by (simp add: in_range32_def assms)

lemma be_bytes4_be_int:
  assumes "length bs = 4"
  shows "be_bytes 4 (be_int bs) = bs"
  using be_bytes_be_int [of bs] by (simp only: assms)

lemma parse_pack_bytes:
  assumes "length d = 20"
  shows "\<exists>h0 h1 h2 h3 h4. parse_state (bytes_hex d) = Inr [h0, h1, h2, h3, h4]
           \<and> struct_pack_5I h0 h1 h2 h3 h4 = Inr d"
proof -
  define c where "c j = take 4 (drop j d)" for j
  have len: "length (c j) = 4" if "j + 4 \<le> 20" for j
    using that assms by (simp add: c_def)
  have r: "in_range32 (be_int (c j))" if "j + 4 \<le> 20" for j
    by (rule be_int_in_range32 [OF len [OF that]])
  have b: "be_bytes 4 (be_int (c j)) = c j" if "j + 4 \<le> 20" for j
    by (rule be_bytes4_be_int [OF len [OF that]])
  have parse: "parse_state (bytes_hex d)
      = Inr [be_int (c 0), be_int (c 4), be_int (c 8), be_int (c 12), be_int (c 16)]"
    using parse_state_bytes_hex [OF assms] by (simp add: c_def)
  have "struct_pack_5I (be_int (c 0)) (be_int (c 4)) (be_int (c 8)) (be_int (c 12)) (be_int (c 16))
      = Inr (c 0 @ c 4 @ c 8 @ c 12 @ c 16)"
    using r [of 0] r [of 4] r [of 8] r [of 12] r [of 16] b [of 0] b [of 4] b [of 8] b [of 12] b [of 16]
    by (simp add: struct_pack_5I_def in_range32_def)
  also have "c 0 @ c 4 @ c 8 @ c 12 @ c 16 = d"
    using chunks20 [OF assms] by (simp add: c_def)
  finally show ?thesis using parse by blast
qed


lemma unhex_append:
  assumes "even (length s1)"
  shows "unhex (s1 @ s2) = unhex s1 @ unhex s2"
  using assms by (induction s1 rule: unhex.induct) simp_all

lemma length_two:
  assumes "length xs = 2"
  shows "\<exists>a b. xs = [a, b]"
  using assms by (auto simp add: eval_nat_numeral length_Suc_conv)

lemma split_last_two:
  assumes "length s = 2 * Suc n"
  shows "\<exists>s' c1 c2. s = s' @ [c1, c2] \<and> length s' = 2 * n"
proof -
  have "s = take (2 * n) s @ drop (2 * n) s" by simp
  moreover have "length (drop (2 * n) s) = 2" using assms by simp
  then obtain c1 c2 where "drop (2 * n) s = [c1, c2]"
    using length_two by blast
  moreover have "length (take (2 * n) s) = 2 * n" using assms by simp
  ultimately show ?thesis by metis
qed

lemma be_bytes_hex_value:
  assumes "\<forall>c\<in>set s. is_hex c" and "length s = 2 * n"
  shows "be_bytes n (hex_value s) = unhex s"
  using assms
proof (induction n arbitrary: s)
  case 0
  then show ?case by simp
next
  case (Suc n)
  obtain s' c1 c2 where s: "s = s' @ [c1, c2]" and len: "length s' = 2 * n"
    using split_last_two [OF Suc.prems(2)] by blast
  have hex: "\<forall>c\<in>set s'. is_hex c" "is_hex c1" "is_hex c2" using Suc.prems(1) by (simp_all add: s)
  obtain d1 d2 where d: "digit_value c1 = Some d1" "d1 < 16" "digit_value c2 = Some d2" "d2 < 16"
    using digit_value_bound [OF hex(2)] digit_value_bound [OF hex(3)] by blast
  define v where "v = int (16 * d1 + d2)"
  have v: "0 \<le> v" "v < 256" using d by (simp_all add: v_def)
  have hv: "hex_value s = hex_value s' * 256 + v"
    by (simp add: s hex_value_def d v_def)
  have dv: "(hex_value s' * 256 + v) div 256 = hex_value s'" using v by simp
  have mv: "(hex_value s' * 256 + v) mod 256 = v" using v by simp
  have "be_bytes (Suc n) (hex_value s) = be_bytes n (hex_value s') @ [word_of_int v]"
    unfolding hv be_bytes.simps dv mv ..
  also have "\<dots> = unhex s' @ [word_of_int v]" by (simp only: Suc.IH [OF hex(1) len])
  also have "[word_of_int v :: byte] = unhex [c1, c2]" by (simp add: d v_def)
  also have "unhex s' @ unhex [c1, c2] = unhex s"
    unfolding s by (rule unhex_append [symmetric]) (simp add: len)
  finally show ?case .
qed

lemma unhex_bytes_hex: "unhex (bytes_hex d) = d"
proof (induction d)
  case Nil
  show ?case by simp
next
  case (Cons b bs)
  have "(word_of_nat (16 * (unat b div 16) + unat b mod 16) :: byte) = b" by simp
  then show ?case
    by (simp add: bytes_hex_Cons digit_value_hex_char nibbles Cons.IH del: of_nat_add of_nat_mult)
qed

lemma chunks40:
  assumes "length s = 40"
  shows "take 8 s @ take 8 (drop 8 s) @ take 8 (drop 16 s) @ take 8 (drop 24 s)
      @ take 8 (drop 32 s) = s"
proof -
  have a: "take 8 (drop k s) @ drop (k + 8) s = drop k s" for k
    using append_take_drop_id [of 8 "drop k s"] by (simp add: add.commute)
  have "take 8 (drop 32 s) = drop 32 s" using assms by simp
  then have "take 8 (drop 24 s) @ take 8 (drop 32 s) = drop 24 s" using a [of 24] by simp
  then have "take 8 (drop 16 s) @ take 8 (drop 24 s) @ take 8 (drop 32 s) = drop 16 s"
    using a [of 16] by simp
  then have "take 8 (drop 8 s) @ take 8 (drop 16 s) @ take 8 (drop 24 s) @ take 8 (drop 32 s)
      = drop 8 s"
    using a [of 8] by simp
  then show ?thesis using a [of 0] by simp
qed

lemma parse_pack_string:
  assumes "length s = 40" and "\<forall>c\<in>set s. is_hex c"
  shows "\<exists>h0 h1 h2 h3 h4. parse_state s = Inr [h0, h1, h2, h3, h4]
           \<and> struct_pack_5I h0 h1 h2 h3 h4 = Inr (unhex s)"
proof -
  define c where "c j = take 8 (drop j s)" for j
  have l40: "40 \<le> length s" and h40: "\<forall>x\<in>set (take 40 s). is_hex x"
    using assms by simp_all
  have len: "length (c j) = 8" if "j + 8 \<le> 40" for j
    unfolding c_def by (rule slice_hex(3) [OF that l40 h40])
  have hex: "\<forall>x\<in>set (c j). is_hex x" if "j + 8 \<le> 40" for j
    unfolding c_def by (rule slice_hex(2) [OF that l40 h40])
  have r: "in_range32 (hex_value (c j))" if "j + 8 \<le> 40" for j
    by (rule hex_value_in_range32 [OF len [OF that] hex [OF that]])
  have b: "be_bytes 4 (hex_value (c j)) = unhex (c j)" if "j + 8 \<le> 40" for j
    by (rule be_bytes_hex_value [OF hex [OF that]]) (simp add: len [OF that])
  have ev: "even (length (c j))" if "j + 8 \<le> 40" for j
    by (simp add: len [OF that])
  have parse: "parse_state s = Inr [hex_value (c 0), hex_value (c 8), hex_value (c 16),
      hex_value (c 24), hex_value (c 32)]"
    using parse_state_hex [OF l40 h40] by (simp add: c_def)
  have "struct_pack_5I (hex_value (c 0)) (hex_value (c 8)) (hex_value (c 16)) (hex_value (c 24))
        (hex_value (c 32))
      = Inr (unhex (c 0) @ unhex (c 8) @ unhex (c 16) @ unhex (c 24) @ unhex (c 32))"
    using r [of 0] r [of 8] r [of 16] r [of 24] r [of 32] b [of 0] b [of 8] b [of 16] b [of 24] b [of 32]
    by (simp add: struct_pack_5I_def in_range32_def)
  also have "unhex (c 0) @ unhex (c 8) @ unhex (c 16) @ unhex (c 24) @ unhex (c 32)
      = unhex (c 0 @ c 8 @ c 16 @ c 24 @ c 32)"
    using ev [of 0] ev [of 8] ev [of 16] ev [of 24] by (simp add: unhex_append)
  also have "c 0 @ c 8 @ c 16 @ c 24 @ c 32 = s"
    using chunks40 [OF assms(1)] by (simp add: c_def)
  finally show ?thesis using parse by blast
qed

text \<open>
  Claim C9. Parsing the hexadecimal form of a 20-byte digest into the five-word state,
  as \<^verbatim>\<open>sha1_extend\<close> does, and packing the words again as big-endian 32-bit integers,
  as \<^verbatim>\<open>sha1_extend_hash\<close> does, gives the digest bytes back. The same holds of any
  string of 40 hexadecimal digits, in either case, and the bytes it stands for.
\<close>

theorem parse_pack_roundtrip:
  "(length d = 20
      \<longrightarrow> (\<exists>h0 h1 h2 h3 h4. parse_state (bytes_hex d) = Inr [h0, h1, h2, h3, h4]
             \<and> struct_pack_5I h0 h1 h2 h3 h4 = Inr d))
   \<and> (length s = 40 \<and> (\<forall>c\<in>set s. is_hex c)
      \<longrightarrow> (\<exists>h0 h1 h2 h3 h4. parse_state s = Inr [h0, h1, h2, h3, h4]
             \<and> struct_pack_5I h0 h1 h2 h3 h4 = Inr (unhex s)))
   \<and> unhex (bytes_hex d) = d"
  using parse_pack_bytes [of d] parse_pack_string [of s] unhex_bytes_hex [of d] by blast

theorem parse_pack_roundtrip_witness:
  "length (replicate 20 (171 :: byte)) = 20
   \<and> (\<exists>h0 h1 h2 h3 h4. parse_state (bytes_hex (replicate 20 171)) = Inr [h0, h1, h2, h3, h4]
           \<and> struct_pack_5I h0 h1 h2 h3 h4 = Inr (replicate 20 171))
   \<and> length (replicate 40 CHR ''A'') = 40 \<and> is_hex CHR ''A''
   \<and> (\<exists>h0 h1 h2 h3 h4. parse_state (replicate 40 CHR ''A'') = Inr [h0, h1, h2, h3, h4]
           \<and> struct_pack_5I h0 h1 h2 h3 h4 = Inr (unhex (replicate 40 CHR ''A'')))"
proof -
  have len: "length (replicate 20 (171 :: byte)) = 20" by (simp only: length_replicate)
  have len40: "length (replicate 40 CHR ''A'') = 40" by (simp only: length_replicate)
  have hexA: "is_hex CHR ''A''" by (simp add: is_hex_def digit_value_def)
  then have all: "\<forall>c\<in>set (replicate 40 CHR ''A''). is_hex c" by simp
  note inst = parse_pack_roundtrip [of "replicate 20 171" "replicate 40 CHR ''A''"]
  have p1: "\<exists>h0 h1 h2 h3 h4. parse_state (bytes_hex (replicate 20 171)) = Inr [h0, h1, h2, h3, h4]
           \<and> struct_pack_5I h0 h1 h2 h3 h4 = Inr (replicate 20 171)"
    using inst len by blast
  have p2: "\<exists>h0 h1 h2 h3 h4. parse_state (replicate 40 CHR ''A'') = Inr [h0, h1, h2, h3, h4]
           \<and> struct_pack_5I h0 h1 h2 h3 h4 = Inr (unhex (replicate 40 CHR ''A''))"
    using inst len40 all by blast
  show ?thesis by (intro conjI len p1 len40 hexA p2)
qed

subsection \<open>The forged digest\<close>





subsection \<open>What the parser rejects\<close>














subsection \<open>The contract of the parser\<close>





subsection \<open>A test vector\<close>

text \<open>The model computes SHA-1: the digest of the three bytes \<^verbatim>\<open>abc\<close> is the test
  vector of the standard.\<close>

lemma digest_abc:
  "map_sum id bytes_hex (digest [97, 98, 99]) = Inr ''a9993e364706816aba3e25717850c26c9cd0d89d''"
  by code_simp

end
